theory Spec2Isabelle
  imports Main "HOL-Library.Word" "HOL-Library.Multiset"
begin

section \<open>The response-size handler and its rate limiter\<close>

text \<open>
  A shallow embedding of \<^verbatim>\<open>transport/http/handler.go\<close> and of the rate-limit
  middleware of the same package. Go errors are modelled by their message (\<open>None\<close> is
  the nil error), an \<^verbatim>\<open>io.Reader\<close> by what \<^verbatim>\<open>io.ReadAll\<close> gets out of it, and the effect
  of a handler on its \<^verbatim>\<open>http.ResponseWriter\<close> by the list of calls it makes on it.
\<close>

subsection \<open>Strings, errors, readers and writers\<close>

type_synonym err = "string option"

definition nl :: char where
  "nl = CHR 0x0A"

definition cr :: char where
  "cr = CHR 0x0D"

text \<open>What \<^verbatim>\<open>io.ReadAll\<close> returns for a reader: the bytes read and the error that stopped it.\<close>

record reader =
  rd_data :: string
  rd_err :: err

definition ReadAll :: "reader \<Rightarrow> string \<times> err" where
  "ReadAll r = (rd_data r, rd_err r)"

text \<open>
  A call on the response writer: \<^verbatim>\<open>w.Write(b)\<close>, or \<^verbatim>\<open>http.Error(w, msg, code)\<close>.
\<close>

datatype wcall = WriteCall string | HttpError string nat

text \<open>
  The status code a client sees: the first call on the writer sends the header, a plain
  \<^verbatim>\<open>Write\<close> with status 200 (also the status of a response nothing was written to).
\<close>

fun status_of :: "wcall list \<Rightarrow> nat" where
  "status_of [] = 200"
| "status_of (WriteCall b # cs) = 200"
| "status_of (HttpError msg code # cs) = code"

definition StatusBadRequest :: nat where "StatusBadRequest = 400"
definition StatusMethodNotAllowed :: nat where "StatusMethodNotAllowed = 405"
definition StatusTooManyRequests :: nat where "StatusTooManyRequests = 429"
definition StatusInternalServerError :: nat where "StatusInternalServerError = 500"

text \<open>\<^verbatim>\<open>http.StatusText\<close> on the two codes the middleware uses.\<close>

definition StatusText :: "nat \<Rightarrow> string" where
  "StatusText code =
     (if code = 400 then ''Bad Request''
      else if code = 429 then ''Too Many Requests''
      else [])"

subsection \<open>\<^verbatim>\<open>strconv.Itoa\<close>\<close>

definition digit_char :: "nat \<Rightarrow> char" where
  "digit_char d = ''0123456789'' ! d"

fun dec_digits :: "nat \<Rightarrow> string" where
  "dec_digits n =
     (if n < 10 then [digit_char n] else dec_digits (n div 10) @ [digit_char (n mod 10)])"

declare dec_digits.simps [simp del]

definition Itoa :: "int \<Rightarrow> string" where
  "Itoa i = (if i < 0 then CHR ''-'' # dec_digits (nat (- i)) else dec_digits (nat i))"

text \<open>Reading a decimal integer back, for stating what a rendered line is.\<close>

definition digit_val :: "char \<Rightarrow> nat option" where
  "digit_val c =
     (if 48 \<le> (of_char c :: nat) \<and> (of_char c :: nat) \<le> 57
      then Some (of_char c - 48) else None)"

fun read_digits :: "nat \<Rightarrow> string \<Rightarrow> nat option" where
  "read_digits acc [] = Some acc"
| "read_digits acc (c # cs) =
     (case digit_val c of None \<Rightarrow> None | Some d \<Rightarrow> read_digits (10 * acc + d) cs)"

definition read_nat :: "string \<Rightarrow> nat option" where
  "read_nat ds = (if ds = [] then None else read_digits 0 ds)"

definition read_decimal :: "string \<Rightarrow> int option" where
  "read_decimal str =
     (case str of
        [] \<Rightarrow> None
      | c # cs \<Rightarrow>
          if c = CHR ''-'' then map_option (\<lambda>n. - int n) (read_nat cs)
          else map_option int (read_nat str))"

subsection \<open>The result collector\<close>

text \<open>\<^verbatim>\<open>resSizes\<close>: the slice of byte lengths (the mutex is what makes \<^verbatim>\<open>Add\<close> one step).\<close>

record resSizes =
  s :: "int list"

text \<open>
  The loop of \<^verbatim>\<open>resSizes.String\<close>: \<open>sLen\<close> is \<^verbatim>\<open>len(rs.s)\<close>, \<open>i\<close> the index of the
  next element, \<open>b\<close> the builder.
\<close>

fun String_loop :: "int \<Rightarrow> int \<Rightarrow> int list \<Rightarrow> string \<Rightarrow> string" where
  "String_loop sLen i [] b = b"
| "String_loop sLen i (sz # rest) b =
     (let b1 = b @ Itoa sz;
          b2 = (if sLen - i > 1 then b1 @ [nl] else b1)
      in String_loop sLen (i + 1) rest b2)"

definition resSizes_String :: "resSizes \<Rightarrow> string" where
  "resSizes_String rs = String_loop (int (length (s rs))) 0 (s rs) []"

definition resSizes_Add :: "int \<Rightarrow> resSizes \<Rightarrow> resSizes" where
  "resSizes_Add i rs = rs\<lparr>s := s rs @ [i]\<rparr>"

text \<open>
  The rendering as the specification words it: the lines, separated by one newline, with
  none after the last.
\<close>

fun join_lines :: "string list \<Rightarrow> string" where
  "join_lines [] = []"
| "join_lines [l] = l"
| "join_lines (l # l' # ls) = l @ [nl] @ join_lines (l' # ls)"

text \<open>The lines of a text: its maximal newline-free pieces, the last one included.\<close>

fun text_lines :: "string \<Rightarrow> string \<Rightarrow> string list" where
  "text_lines cur [] = [cur]"
| "text_lines cur (c # cs) =
     (if c = nl then cur # text_lines [] cs else text_lines (cur @ [c]) cs)"

subsection \<open>Splitting the request body into lines\<close>

text \<open>
  \<^verbatim>\<open>splitToLines\<close> reads its input with a \<^verbatim>\<open>bufio.Scanner\<close> and the scanner's default
  split function \<^verbatim>\<open>ScanLines\<close>. The scanner belongs to Go's standard library; it is modelled
  after the documentation and the source of package \<^verbatim>\<open>bufio\<close>: a token is a line without
  its newline and without one carriage return before it, a last line needs no newline,
  an empty last line is no token, and scanning stops with \<^verbatim>\<open>ErrTooLong\<close> as soon as
  \<^verbatim>\<open>MaxScanTokenSize\<close> bytes are pending in the buffer with no newline among them.
  \<open>cur\<close> holds the pending bytes.
\<close>

definition MaxScanTokenSize :: nat where
  "MaxScanTokenSize = 64 * 1024"

definition ErrTooLong :: string where
  "ErrTooLong = ''bufio.Scanner: token too long''"

definition dropCR :: "string \<Rightarrow> string" where
  "dropCR data = (if data \<noteq> [] \<and> last data = cr then butlast data else data)"

fun scan_tokens :: "string \<Rightarrow> string \<Rightarrow> string list \<times> err" where
  "scan_tokens cur [] =
     (if cur = [] then ([], None)
      else if MaxScanTokenSize \<le> length cur then ([], Some ErrTooLong)
      else ([dropCR cur], None))"
| "scan_tokens cur (c # cs) =
     (if MaxScanTokenSize \<le> length cur then ([], Some ErrTooLong)
      else if c = nl then (case scan_tokens [] cs of (toks, e) \<Rightarrow> (dropCR cur # toks, e))
      else scan_tokens (cur @ [c]) cs)"

text \<open>\<^verbatim>\<open>splitToLines\<close>: the non-empty tokens, and \<^verbatim>\<open>sc.Err()\<close>.\<close>

definition splitToLines :: "string \<Rightarrow> string list \<times> err" where
  "splitToLines input =
     (case scan_tokens [] input of (toks, e) \<Rightarrow> (filter (\<lambda>line. line \<noteq> []) toks, e))"

subsection \<open>Recognising URLs\<close>

text \<open>
  \<^verbatim>\<open>net/url.Parse\<close> is a parameter of the model: a parser gives the scheme and the host of
  the URL it parsed, or \<open>None\<close> where \<^verbatim>\<open>Parse\<close> returns an error.
\<close>

record URL =
  Scheme :: string
  Host :: string

type_synonym url_parser = "string \<Rightarrow> URL option"

definition isUrl :: "url_parser \<Rightarrow> string \<Rightarrow> bool" where
  "isUrl parse str = (case parse str of None \<Rightarrow> False | Some u \<Rightarrow> Scheme u \<noteq> [] \<and> Host u \<noteq> [])"

subsection \<open>The handler\<close>

text \<open>
  The \<^verbatim>\<open>Getter\<close> of the handler: for a URL, the error of \<^verbatim>\<open>Get\<close> or the body of the
  response. The client is taken to answer a URL the same way each time it is asked.
\<close>

type_synonym getter = "string \<Rightarrow> string + reader"

record request =
  Method :: string
  RemoteAddr :: string
  Body :: reader

record ResponseSizeCounter =
  urls :: "string list"
  sizes :: resSizes
  client :: getter

type_synonym 'st handler = "request \<Rightarrow> 'st \<Rightarrow> wcall list \<times> 'st"

definition quote :: char where
  "quote = CHR 0x27"

definition doGet :: "getter \<Rightarrow> string \<Rightarrow> int \<times> err" where
  "doGet cl url =
     (case cl url of
        Inl e \<Rightarrow> (0, Some (''GET '' @ [quote] @ url @ [quote] @ '': '' @ e))
      | Inr body \<Rightarrow>
          (case ReadAll body of
             (bytes, e) \<Rightarrow> (int (length bytes), map_option (\<lambda>m. ''read response body: '' @ m) e)))"

text \<open>The loop of \<^verbatim>\<open>getUrls\<close> over the lines; \<open>us\<close> is \<^verbatim>\<open>h.urls\<close>.\<close>

fun check_lines :: "url_parser \<Rightarrow> string list \<Rightarrow> string list \<Rightarrow> string list \<times> err" where
  "check_lines parse [] us = (us, None)"
| "check_lines parse (line # rest) us =
     (if isUrl parse line then check_lines parse rest (us @ [line])
      else (us, Some ([quote] @ line @ [quote] @ '' is not a URL'')))"

definition getUrls :: "url_parser \<Rightarrow> request \<Rightarrow> ResponseSizeCounter \<Rightarrow> ResponseSizeCounter \<times> err" where
  "getUrls parse req h =
     (case ReadAll (Body req) of
        (bytes, Some e) \<Rightarrow> (h, Some (''read request body: '' @ e))
      | (bytes, None) \<Rightarrow>
          (case splitToLines bytes of
             (lines, Some e) \<Rightarrow> (h, Some (''split request body to lines: '' @ e))
           | (lines, None) \<Rightarrow>
               (case check_lines parse lines [] of (us, e) \<Rightarrow> (h\<lparr>urls := us\<rparr>, e))))"

text \<open>
  The variables the fetch tasks of one \<^verbatim>\<open>getRespSizes\<close> call share: the collector, the
  \<^verbatim>\<open>sync.Once\<close> and the variable \<^verbatim>\<open>err\<close> that \<^verbatim>\<open>getRespSizes\<close> returns.
\<close>

record fan_out =
  collected :: resSizes
  errOnce_done :: bool
  err_var :: err

text \<open>
  A fetch task has two steps on the shared variables: after \<^verbatim>\<open>doGet\<close>, the
  \<^verbatim>\<open>errOnce.Do\<close> that assigns the task's parameter \<^verbatim>\<open>single\<close>; then \<^verbatim>\<open>h.sizes.Add(size)\<close>.
  A task carries its own \<^verbatim>\<open>single\<close>, which starts as the value \<^verbatim>\<open>err\<close> had when the task
  was started.
\<close>

datatype task = Fetch string err | Adding int err

fun task_step :: "getter \<Rightarrow> task \<Rightarrow> fan_out \<Rightarrow> task option \<times> fan_out" where
  "task_step cl (Fetch url single) st =
     (case doGet cl url of
        (sz, Some e) \<Rightarrow>
          (if errOnce_done st then (Some (Adding sz single), st)
           else (Some (Adding sz (Some e)), st\<lparr>errOnce_done := True\<rparr>))
      | (sz, None) \<Rightarrow> (Some (Adding sz single), st))"
| "task_step cl (Adding sz single) st =
     (None, st\<lparr>collected := resSizes_Add sz (collected st)\<rparr>)"

fun steps_left :: "task \<Rightarrow> nat" where
  "steps_left (Fetch url single) = 2"
| "steps_left (Adding sz single) = 1"

text \<open>
  The tasks run in any order until none is left (\<^verbatim>\<open>wg.Wait\<close>): the scheduler is a list of
  numbers, each choosing the pending task that takes the next step.
\<close>

definition pick :: "nat list \<Rightarrow> nat \<Rightarrow> nat" where
  "pick picks n = (case picks of [] \<Rightarrow> 0 | p # ps \<Rightarrow> p mod n)"

definition advance :: "nat \<Rightarrow> task option \<Rightarrow> task list \<Rightarrow> task list" where
  "advance k t' pending =
     (case t' of None \<Rightarrow> take k pending @ drop (Suc k) pending | Some u \<Rightarrow> pending[k := u])"

function run_tasks :: "getter \<Rightarrow> nat list \<Rightarrow> task list \<Rightarrow> fan_out \<Rightarrow> fan_out" where
  "run_tasks cl picks [] st = st"
| "run_tasks cl picks (t # ts) st =
     (let k = pick picks (length (t # ts));
          (t', st') = task_step cl ((t # ts) ! k) st
      in run_tasks cl (tl picks) (advance k t' (t # ts)) st')"
  by pat_completeness auto
termination
proof (relation "measure (\<lambda>(cl, picks, pending, st). sum_list (map steps_left pending))")
  show "wf (measure (\<lambda>(cl, picks, pending, st). sum_list (map steps_left pending)))"
    by simp
next
  fix cl :: getter and picks :: "nat list" and t :: task and ts :: "task list"
    and st :: fan_out and k x t' st'
  assume k: "k = pick picks (length (t # ts))"
    and x: "x = task_step cl ((t # ts) ! k) st" and pair: "(t', st') = x"
  let ?p = "t # ts"
  have klt: "k < length ?p"
    unfolding k pick_def by (cases picks) simp_all
  have split: "?p = take k ?p @ (?p ! k) # drop (Suc k) ?p"
    using klt by (rule id_take_nth_drop)
  have total: "sum_list (map steps_left ?p) =
      sum_list (map steps_left (take k ?p)) + steps_left (?p ! k)
      + sum_list (map steps_left (drop (Suc k) ?p))"
    by (subst split) simp
  have step: "task_step cl (?p ! k) st = (t', st')"
    using x pair by simp
  have "sum_list (map steps_left (advance k t' ?p)) < sum_list (map steps_left ?p)"
  proof (cases t')
    case None
    have "0 < steps_left (?p ! k)" by (cases "?p ! k") simp_all
    with None total show ?thesis by (simp add: advance_def)
  next
    case (Some u)
    have "steps_left u < steps_left (?p ! k)"
      using step Some by (cases "?p ! k") (auto split: prod.splits option.splits if_splits)
    moreover have "sum_list (map steps_left (?p[k := u])) =
        sum_list (map steps_left (take k ?p)) + steps_left u
        + sum_list (map steps_left (drop (Suc k) ?p))"
      by (subst upd_conv_take_nth_drop [OF klt]) simp
    ultimately show ?thesis using Some total by (simp add: advance_def)
  qed
  then show "((cl, tl picks, advance k t' ?p, st'), (cl, picks, ?p, st))
      \<in> measure (\<lambda>(cl, picks, pending, st). sum_list (map steps_left pending))"
    by simp
qed

declare run_tasks.simps(2) [simp del]

text \<open>
  \<^verbatim>\<open>getRespSizes\<close>: empty the collector, start one task per URL with the current (nil)
  \<^verbatim>\<open>err\<close> as its argument, wait for all of them, return \<^verbatim>\<open>err\<close>.
\<close>

definition getRespSizes :: "nat list \<Rightarrow> ResponseSizeCounter \<Rightarrow> ResponseSizeCounter \<times> err" where
  "getRespSizes picks h =
     (let st0 = \<lparr>collected = (sizes h)\<lparr>s := []\<rparr>, errOnce_done = False, err_var = None\<rparr>;
          st = run_tasks (client h) picks (map (\<lambda>url. Fetch url (err_var st0)) (urls h)) st0
      in (h\<lparr>sizes := collected st\<rparr>, err_var st))"

text \<open>
  The last step of \<^verbatim>\<open>serve\<close>: write the rendered collector; \<open>wr\<close> is the error, if any,
  that the writer's \<^verbatim>\<open>Write\<close> returns.
\<close>

definition write_sizes :: "(string \<Rightarrow> err) \<Rightarrow> ResponseSizeCounter \<Rightarrow> wcall list" where
  "write_sizes wr h =
     (let out = resSizes_String (sizes h)
      in case wr out of
           None \<Rightarrow> [WriteCall out]
         | Some e \<Rightarrow> [WriteCall out, HttpError (''write response: '' @ e) StatusInternalServerError])"

definition serve ::
  "url_parser \<Rightarrow> nat list \<Rightarrow> (string \<Rightarrow> err) \<Rightarrow> ResponseSizeCounter handler" where
  "serve parse picks wr req h =
     (case getUrls parse req h of
        (h1, Some e) \<Rightarrow> ([HttpError (''get urls: '' @ e) StatusInternalServerError], h1)
      | (h1, None) \<Rightarrow>
          (case getRespSizes picks h1 of
             (h2, Some e) \<Rightarrow>
               ([HttpError (''get sizes of responses: '' @ e) StatusInternalServerError], h2)
           | (h2, None) \<Rightarrow> (write_sizes wr h2, h2)))"

definition MethodPost :: string where
  "MethodPost = ''POST''"

definition ServeHTTP ::
  "url_parser \<Rightarrow> nat list \<Rightarrow> (string \<Rightarrow> err) \<Rightarrow> ResponseSizeCounter handler" where
  "ServeHTTP parse picks wr req h =
     (if Method req = MethodPost then serve parse picks wr req h
      else ([HttpError ''Only POST method supported.'' StatusMethodNotAllowed], h))"

subsection \<open>The rate limiter\<close>

text \<open>
  \<^verbatim>\<open>StatHolder\<close>: the map from client address to its \<^verbatim>\<open>int32\<close> count. Reading a key the
  map does not hold gives 0, and \<^verbatim>\<open>++\<close> wraps around.
\<close>

type_synonym int32 = "32 word"

record StatHolder =
  counter :: "string \<rightharpoonup> int32"

definition NewStatHolder :: StatHolder where
  "NewStatHolder = \<lparr>counter = Map.empty\<rparr>"

definition Reset :: "StatHolder \<Rightarrow> StatHolder" where
  "Reset sh = sh\<lparr>counter := Map.empty\<rparr>"

definition count_of :: "StatHolder \<Rightarrow> string \<Rightarrow> int32" where
  "count_of sh ident = (case counter sh ident of None \<Rightarrow> 0 | Some c \<Rightarrow> c)"

definition Increment :: "string \<Rightarrow> StatHolder \<Rightarrow> int32 \<times> StatHolder" where
  "Increment ident sh =
     (let sh' = sh\<lparr>counter := (counter sh)(ident \<mapsto> count_of sh ident + 1)\<rparr>
      in (count_of sh' ident, sh'))"

text \<open>
  \<^verbatim>\<open>net.SplitHostPort\<close> is a parameter of the model: the error, or the host and the port.
\<close>

type_synonym host_port_splitter = "string \<Rightarrow> string + string \<times> string"

definition requestIP :: "host_port_splitter \<Rightarrow> request \<Rightarrow> string + string" where
  "requestIP split req =
     (case split (RemoteAddr req) of Inl e \<Rightarrow> Inl e | Inr (ip, port) \<Rightarrow> Inr ip)"

text \<open>
  The handler \<^verbatim>\<open>RateLimit(limit, window, stat)(next)\<close>; its state is the \<^verbatim>\<open>StatHolder\<close> and
  the state of \<open>next\<close>. The limit is a Go \<^verbatim>\<open>int\<close>, and \<^verbatim>\<open>int(...)\<close> of an \<^verbatim>\<open>int32\<close> is its
  signed value.
\<close>

definition RateLimit ::
  "host_port_splitter \<Rightarrow> int \<Rightarrow> 'st handler \<Rightarrow> (StatHolder \<times> 'st) handler" where
  "RateLimit split limit next req st =
     (case requestIP split req of
        Inl e \<Rightarrow> ([HttpError (StatusText StatusBadRequest) StatusBadRequest], st)
      | Inr reqIP \<Rightarrow>
          (case Increment reqIP (fst st) of
             (cur, sh') \<Rightarrow>
               (let current = sint cur
                in if limit < current
                   then ([HttpError (StatusText StatusTooManyRequests) StatusTooManyRequests],
                         (sh', snd st))
                   else (case next req (snd st) of (calls, st') \<Rightarrow> (calls, (sh', st'))))))"

text \<open>
  What reaches the limiter, in order: requests, and the ticks of the ticker that
  \<^verbatim>\<open>RateLimit\<close> starts, each of which calls \<^verbatim>\<open>stat.Reset()\<close>. Every request has a writer of
  its own; the result lists what each request's writer received.
\<close>

datatype event = Request request | Tick

fun run_events ::
  "(StatHolder \<times> 'st) handler \<Rightarrow> event list \<Rightarrow> StatHolder \<times> 'st \<Rightarrow>
   wcall list list \<times> (StatHolder \<times> 'st)" where
  "run_events h [] st = ([], st)"
| "run_events h (Request req # evs) st =
     (case h req st of
        (calls, st') \<Rightarrow> (case run_events h evs st' of (out, st'') \<Rightarrow> (calls # out, st'')))"
| "run_events h (Tick # evs) st = run_events h evs (Reset (fst st), snd st)"

definition defaultRateLimit :: int where
  "defaultRateLimit = 999"

subsection \<open>The lines of a body, as the specification words them\<close>

text \<open>
  The non-empty lines of a body: its newline-free pieces, each without the carriage
  return that may end it.
\<close>

definition body_lines :: "string \<Rightarrow> string list" where
  "body_lines body = filter (\<lambda>line. line \<noteq> []) (map dropCR (text_lines [] body))"

definition not_a_URL :: "string \<Rightarrow> string" where
  "not_a_URL line = [quote] @ line @ [quote] @ '' is not a URL''"

subsection \<open>Collaborators of the package's tests\<close>

text \<open>
  \<^verbatim>\<open>net/url.Parse\<close> on the lines of the two request bodies of \<^verbatim>\<open>handler_test.go\<close>: the
  three URLs of \<^verbatim>\<open>request()\<close> have a scheme and a host, the three lines of
  \<^verbatim>\<open>badRequest()\<close> parse as paths, with neither.
\<close>

definition test_Parse :: url_parser where
  "test_Parse str =
     (if str = ''https://test-1.com'' then Some \<lparr>Scheme = ''https'', Host = ''test-1.com''\<rparr>
      else if str = ''http://test-2.com'' then Some \<lparr>Scheme = ''http'', Host = ''test-2.com''\<rparr>
      else if str = ''https://test-3.com'' then Some \<lparr>Scheme = ''https'', Host = ''test-3.com''\<rparr>
      else if str = ''test-1.xyz'' \<or> str = ''test-2.123'' \<or> str = ''test-3.abc''
      then Some \<lparr>Scheme = [], Host = []\<rparr>
      else None)"

text \<open>
  \<^verbatim>\<open>net.SplitHostPort\<close> on the two peer addresses of \<^verbatim>\<open>middleware_test.go\<close>.
\<close>

definition test_SplitHostPort :: host_port_splitter where
  "test_SplitHostPort addr =
     (if addr = ''127.0.0.1:80'' then Inr (''127.0.0.1'', ''80'')
      else Inl (''address '' @ addr @ '': missing port in address''))"

text \<open>
  The mock client of \<^verbatim>\<open>handler_test.go\<close> answers every URL with a body of 25000 bytes;
  a client whose \<^verbatim>\<open>Get\<close> fails; a writer whose \<^verbatim>\<open>Write\<close> succeeds; the mock handler of
  \<^verbatim>\<open>middleware_test.go\<close>, which does nothing.
\<close>

definition mock_client :: getter where
  "mock_client url = Inr \<lparr>rd_data = replicate 25000 (CHR ''0''), rd_err = None\<rparr>"

definition failing_client :: getter where
  "failing_client url = Inl ''connection refused''"

definition write_ok :: "string \<Rightarrow> err" where
  "write_ok b = None"

definition mock_handler :: "unit handler" where
  "mock_handler req st = ([], st)"

definition post :: "string \<Rightarrow> request" where
  "post body = \<lparr>Method = MethodPost, RemoteAddr = ''127.0.0.1:80'',
                Body = \<lparr>rd_data = body, rd_err = None\<rparr>\<rparr>"

definition new_handler :: "getter \<Rightarrow> ResponseSizeCounter" where
  "new_handler cl = \<lparr>urls = [], sizes = \<lparr>s = []\<rparr>, client = cl\<rparr>"

text \<open>The state of a handler after a run of events; the request of \<^verbatim>\<open>requestWithIP\<close>.\<close>

definition state_after ::
  "(StatHolder \<times> 'st) handler \<Rightarrow> event list \<Rightarrow> StatHolder \<times> 'st \<Rightarrow> StatHolder \<times> 'st" where
  "state_after h evs st = snd (run_events h evs st)"

definition requestWithIP :: "string \<Rightarrow> request" where
  "requestWithIP ip = \<lparr>Method = ''GET'', RemoteAddr = ip, Body = \<lparr>rd_data = [], rd_err = None\<rparr>\<rparr>"

text \<open>The size a pending task is going to add to the collector.\<close>

fun final_size :: "getter \<Rightarrow> task \<Rightarrow> int" where
  "final_size cl (Fetch url single) = fst (doGet cl url)"
| "final_size cl (Adding sz single) = sz"

text \<open>
  A client whose response bodies differ in length: 10 bytes for the first URL of
  \<^verbatim>\<open>handler_test.go\<close>, 20 bytes for every other.
\<close>

definition sized_client :: getter where
  "sized_client url =
     Inr \<lparr>rd_data = (if url = ''https://test-1.com'' then replicate 10 (CHR ''0'')
                     else replicate 20 (CHR ''0'')),
          rd_err = None\<rparr>"

text \<open>
  Two requests in flight on one handler value, as \<^verbatim>\<open>net/http\<close> runs them on the handler
  that \<^verbatim>\<open>MakeResponseSizeCounter\<close> returns: \<^verbatim>\<open>serve\<close> for the first request has returned from
  \<^verbatim>\<open>getRespSizes\<close> when the second request is served, and writes its response after that.
  The result is the calls on the first request's writer and on the second's.
\<close>

definition serve_overtaken ::
  "url_parser \<Rightarrow> (string \<Rightarrow> err) \<Rightarrow> request \<Rightarrow> request \<Rightarrow> ResponseSizeCounter \<Rightarrow>
   wcall list \<times> wcall list" where
  "serve_overtaken parse wr req1 req2 h =
     (case getUrls parse req1 h of
        (h1, Some e) \<Rightarrow>
          ([HttpError (''get urls: '' @ e) StatusInternalServerError],
           fst (serve parse [] wr req2 h1))
      | (h1, None) \<Rightarrow>
          (case getRespSizes [] h1 of
             (h2, Some e) \<Rightarrow>
               ([HttpError (''get sizes of responses: '' @ e) StatusInternalServerError],
                fst (serve parse [] wr req2 h2))
           | (h2, None) \<Rightarrow>
               (case serve parse [] wr req2 h2 of (out2, h3) \<Rightarrow> (write_sizes wr h3, out2))))"

subsection \<open>Concurrent calls of \<^verbatim>\<open>Increment\<close>\<close>

text \<open>
  For calls that run at the same time, \<^verbatim>\<open>Increment\<close> is taken apart into its steps on
  the shared \<^verbatim>\<open>StatHolder\<close> and its mutex: \<^verbatim>\<open>sh.mu.Lock()\<close>, which can be taken only
  while the mutex is free; reading \<^verbatim>\<open>sh.counter[id]\<close>; storing the value read plus one;
  reading \<^verbatim>\<open>sh.counter[id]\<close> for the result; and the deferred \<^verbatim>\<open>sh.mu.Unlock()\<close>. A call
  is at one of these steps, or has returned its result.
\<close>

datatype inc_call =
  AtLock | AtLoad | AtStore int32 | AtResult | AtUnlock int32 | Returned int32

text \<open>The mutex (\<open>True\<close> when locked) and the \<^verbatim>\<open>StatHolder\<close> it guards.\<close>

type_synonym guarded = "bool \<times> StatHolder"

fun inc_step :: "string \<Rightarrow> inc_call \<Rightarrow> guarded \<Rightarrow> (inc_call \<times> guarded) option" where
  "inc_step ident AtLock (locked, sh) = (if locked then None else Some (AtLoad, (True, sh)))"
| "inc_step ident AtLoad (locked, sh) = Some (AtStore (count_of sh ident), (locked, sh))"
| "inc_step ident (AtStore v) (locked, sh) =
     Some (AtResult, (locked, sh\<lparr>counter := (counter sh)(ident \<mapsto> v + 1)\<rparr>))"
| "inc_step ident AtResult (locked, sh) = Some (AtUnlock (count_of sh ident), (locked, sh))"
| "inc_step ident (AtUnlock r) (locked, sh) = Some (Returned r, (False, sh))"
| "inc_step ident (Returned r) (locked, sh) = None"

text \<open>
  The calls run interleaved: a schedule names, step by step, the call that moves next;
  naming a call that waits for the mutex, or one that has returned, changes nothing.
\<close>

fun run_calls :: "string \<Rightarrow> nat list \<Rightarrow> inc_call list \<Rightarrow> guarded \<Rightarrow> inc_call list \<times> guarded" where
  "run_calls ident [] calls st = (calls, st)"
| "run_calls ident (i # sched) calls st =
     (if i < length calls
      then (case inc_step ident (calls ! i) st of
              None \<Rightarrow> run_calls ident sched calls st
            | Some (c', st') \<Rightarrow> run_calls ident sched (calls[i := c']) st')
      else run_calls ident sched calls st)"

fun has_returned :: "inc_call \<Rightarrow> bool" where
  "has_returned (Returned r) = True"
| "has_returned c = False"

text \<open>A call that holds the mutex; a call whose store has been done.\<close>

fun holds_lock :: "inc_call \<Rightarrow> bool" where
  "holds_lock AtLock = False"
| "holds_lock (Returned r) = False"
| "holds_lock c = True"

fun has_stored :: "inc_call \<Rightarrow> bool" where
  "has_stored AtResult = True"
| "has_stored (AtUnlock r) = True"
| "has_stored (Returned r) = True"
| "has_stored c = False"

text \<open>
  What holds of every state that interleaved calls on the key \<open>ident\<close> reach from a
  count \<open>c0\<close>: the mutex is locked exactly when one call holds it, no two calls hold it,
  a call about to store has read the current count, and the count is \<open>c0\<close> plus the
  number of stores done.
\<close>

definition calls_inv :: "string \<Rightarrow> int32 \<Rightarrow> inc_call list \<Rightarrow> guarded \<Rightarrow> bool" where
  "calls_inv ident c0 calls st \<longleftrightarrow>
     (fst st \<longleftrightarrow> (\<exists>i < length calls. holds_lock (calls ! i))) \<and>
     (\<forall>i < length calls. \<forall>j < length calls.
        holds_lock (calls ! i) \<and> holds_lock (calls ! j) \<longrightarrow> i = j) \<and>
     (\<forall>i < length calls. \<forall>v. calls ! i = AtStore v \<longrightarrow> v = count_of (snd st) ident) \<and>
     count_of (snd st) ident = c0 + of_nat (length (filter has_stored calls))"

text \<open>The schedule that lets the calls \<open>0, \<dots>, n - 1\<close> run one after the other.\<close>

definition one_by_one :: "nat \<Rightarrow> nat list" where
  "one_by_one n = concat (map (replicate 5) [0..<n])"

section \<open>Theorems\<close>

subsection \<open>Decimal numerals\<close>

lemma digit_val_digit_char: "d < 10 \<Longrightarrow> digit_val (digit_char d) = Some d"
proof -
  assume "d < 10"
  then have "d \<in> {0, 1, 2, 3, 4, 5, 6, 7, 8, 9}" by auto
  then show ?thesis
    by (auto simp: digit_val_def digit_char_def)
qed

lemma digit_val_nl: "digit_val nl = None"
  by (simp add: digit_val_def nl_def)

lemma digit_char_not_nl: "d < 10 \<Longrightarrow> digit_char d \<noteq> nl"
  using digit_val_digit_char [of d] digit_val_nl by auto

lemma digit_val_minus: "digit_val (CHR ''-'') = None"
  by (simp add: digit_val_def)

lemma dec_digits_nonempty: "dec_digits n \<noteq> []"
  by (subst dec_digits.simps) simp

lemma read_digits_append:
  "read_digits acc (xs @ ys) = (case read_digits acc xs of None \<Rightarrow> None | Some a \<Rightarrow> read_digits a ys)"
  by (induction xs arbitrary: acc) (auto split: option.splits)

lemma read_digits_dec_digits: "read_digits 0 (dec_digits n) = Some n"
proof (induction n rule: dec_digits.induct)
  case (1 n)
  show ?case
  proof (cases "n < 10")
    case True
    then show ?thesis
      by (subst dec_digits.simps) (simp add: digit_val_digit_char)
  next
    case False
    with 1 have "read_digits 0 (dec_digits (n div 10)) = Some (n div 10)" by simp
    with False show ?thesis
      by (subst dec_digits.simps) (simp add: read_digits_append digit_val_digit_char)
  qed
qed

lemma dec_digits_no_nl: "nl \<notin> set (dec_digits n)"
proof (induction n rule: dec_digits.induct)
  case (1 n)
  show ?case
  proof (cases "n < 10")
    case True
    then show ?thesis
      using digit_char_not_nl [of n] by (subst dec_digits.simps) auto
  next
    case False
    with 1 have "nl \<notin> set (dec_digits (n div 10))" by simp
    with False show ?thesis
      using digit_char_not_nl [of "n mod 10"] by (subst dec_digits.simps) auto
  qed
qed

lemma hd_dec_digits_not_minus: "hd (dec_digits n) \<noteq> CHR ''-''"
proof (induction n rule: dec_digits.induct)
  case (1 n)
  show ?case
  proof (cases "n < 10")
    case True
    then show ?thesis
      using digit_val_digit_char [of n] digit_val_minus by (subst dec_digits.simps) auto
  next
    case False
    with 1 have "hd (dec_digits (n div 10)) \<noteq> CHR ''-''" by simp
    with False show ?thesis
      by (subst dec_digits.simps) (simp add: dec_digits_nonempty)
  qed
qed

lemma read_nat_dec_digits: "read_nat (dec_digits n) = Some n"
  by (simp add: read_nat_def dec_digits_nonempty read_digits_dec_digits)

lemma read_decimal_Itoa: "read_decimal (Itoa i) = Some i"
proof (cases "i < 0")
  case True
  then show ?thesis
    by (simp add: read_decimal_def Itoa_def read_nat_dec_digits)
next
  case False
  obtain c cs where eq: "dec_digits (nat i) = c # cs"
    using dec_digits_nonempty [of "nat i"] by (cases "dec_digits (nat i)") auto
  with hd_dec_digits_not_minus [of "nat i"] have "c \<noteq> CHR ''-''" by simp
  with False eq show ?thesis
    using read_nat_dec_digits [of "nat i"]
    by (simp add: read_decimal_def Itoa_def)
qed

lemma minus_not_nl: "CHR ''-'' \<noteq> nl"
  by (simp add: nl_def)

lemma Itoa_no_nl: "nl \<notin> set (Itoa i)"
  using minus_not_nl by (auto simp: Itoa_def dec_digits_no_nl)

lemma String_loop_join:
  "sLen = i + int (length xs) \<Longrightarrow>
   String_loop sLen i xs b = b @ join_lines (map Itoa xs)"
proof (induction xs arbitrary: i b)
  case Nil
  then show ?case by simp
next
  case (Cons x xs)
  from Cons.prems have len: "sLen = (i + 1) + int (length xs)" by simp
  show ?case
  proof (cases xs)
    case Nil
    with Cons.prems show ?thesis by simp
  next
    case (Cons y ys)
    with len have gt: "sLen - i > 1" by simp
    have "String_loop sLen i (x # xs) b = String_loop sLen (i + 1) xs (b @ Itoa x @ [nl])"
      using gt by simp
    also have "\<dots> = (b @ Itoa x @ [nl]) @ join_lines (map Itoa xs)"
      by (rule Cons.IH [OF len])
    finally show ?thesis using Cons by simp
  qed
qed

lemma text_lines_no_nl: "nl \<notin> set l \<Longrightarrow> text_lines cur l = [cur @ l]"
  by (induction l arbitrary: cur) auto

lemma text_lines_append_nl:
  "nl \<notin> set l \<Longrightarrow> text_lines cur (l @ nl # rest) = (cur @ l) # text_lines [] rest"
  by (induction l arbitrary: cur) auto

lemma text_lines_join:
  "ls \<noteq> [] \<Longrightarrow> \<forall>l \<in> set ls. nl \<notin> set l \<Longrightarrow> text_lines [] (join_lines ls) = ls"
proof (induction ls rule: join_lines.induct)
  case 1
  then show ?case by simp
next
  case (2 l)
  then show ?case by (simp add: text_lines_no_nl)
next
  case (3 l l' ls)
  then show ?case by (simp add: text_lines_append_nl)
qed

subsection \<open>Rendering the collector\<close>

text \<open>
  Claim C6. \<^verbatim>\<open>resSizes.String\<close> renders a list of sizes as their decimal numerals in
  insertion order, joined by single newlines with none after the last: the empty list
  renders as the empty string, and the lines of the rendering of a non-empty list, read
  back as decimal integers, are exactly the recorded sizes.
\<close>

theorem resSizes_String_lines:
  "resSizes_String rs = join_lines (map Itoa (s rs)) \<and>
   (s rs = [] \<longrightarrow> resSizes_String rs = []) \<and>
   (s rs \<noteq> [] \<longrightarrow>
      map read_decimal (text_lines [] (resSizes_String rs)) = map Some (s rs))"
proof -
  have join: "resSizes_String rs = join_lines (map Itoa (s rs))"
    by (simp add: resSizes_String_def String_loop_join)
  have "s rs \<noteq> [] \<longrightarrow> text_lines [] (join_lines (map Itoa (s rs))) = map Itoa (s rs)"
    by (auto intro!: text_lines_join simp: Itoa_no_nl)
  then have "s rs \<noteq> [] \<longrightarrow>
      map read_decimal (text_lines [] (resSizes_String rs)) = map Some (s rs)"
    by (simp add: join read_decimal_Itoa)
  with join show ?thesis by simp
qed


theorem resSizes_String_lines_witness:
  "s \<lparr>s = [25000, 0, 7]\<rparr> \<noteq> [] \<and>
   resSizes_String \<lparr>s = [25000, 0, 7]\<rparr> =
     ''25000'' @ [nl] @ ''0'' @ [nl] @ ''7'' \<and>
   map read_decimal (text_lines [] (resSizes_String \<lparr>s = [25000, 0, 7]\<rparr>)) =
     [Some 25000, Some 0, Some 7]"
proof -
  have "resSizes_String \<lparr>s = [25000, 0, 7]\<rparr> = ''25000'' @ [nl] @ ''0'' @ [nl] @ ''7''"
    by (simp add: resSizes_String_def Itoa_def dec_digits.simps digit_char_def)
  moreover have "map read_decimal (text_lines [] (resSizes_String \<lparr>s = [25000, 0, 7]\<rparr>)) =
     [Some 25000, Some 0, Some 7]"
    using resSizes_String_lines [of "\<lparr>s = [25000, 0, 7]\<rparr>", THEN conjunct2, THEN conjunct2]
    by simp
  ultimately show ?thesis by simp
qed

subsection \<open>Scanning lines\<close>

lemma scan_tokens_err: "snd (scan_tokens cur inp) = None \<or> snd (scan_tokens cur inp) = Some ErrTooLong"
  by (induction inp arbitrary: cur) (simp_all add: split_beta)

lemma text_lines_has_cur: "\<exists>l \<in> set (text_lines cur inp). length cur \<le> length l"
proof (induction inp arbitrary: cur)
  case Nil
  then show ?case by simp
next
  case (Cons c cs)
  show ?case
  proof (cases "c = nl")
    case True
    then show ?thesis by simp
  next
    case False
    from Cons [of "cur @ [c]"] obtain l where l: "l \<in> set (text_lines (cur @ [c]) cs)"
      and "length (cur @ [c]) \<le> length l" by blast
    then have "length cur \<le> length l" by simp
    with l False show ?thesis by (auto intro!: bexI [of _ l])
  qed
qed

lemma scan_tokens_short:
  "\<forall>l \<in> set (text_lines cur inp). length l < MaxScanTokenSize \<Longrightarrow>
   snd (scan_tokens cur inp) = None"
proof (induction inp arbitrary: cur)
  case Nil
  then show ?case by simp
next
  case (Cons c cs)
  from text_lines_has_cur [of cur "c # cs"] Cons.prems
  have short: "length cur < MaxScanTokenSize" by fastforce
  show ?case
  proof (cases "c = nl")
    case True
    with Cons.prems have "\<forall>l \<in> set (text_lines [] cs). length l < MaxScanTokenSize" by simp
    then have "snd (scan_tokens [] cs) = None" by (rule Cons.IH)
    with True short show ?thesis by (simp add: split_beta)
  next
    case False
    with Cons.prems have "\<forall>l \<in> set (text_lines (cur @ [c]) cs). length l < MaxScanTokenSize"
      by simp
    then have "snd (scan_tokens (cur @ [c]) cs) = None" by (rule Cons.IH)
    with False short show ?thesis by simp
  qed
qed

lemma scan_tokens_long:
  "l \<in> set (text_lines cur inp) \<Longrightarrow> MaxScanTokenSize \<le> length l \<Longrightarrow>
   snd (scan_tokens cur inp) = Some ErrTooLong"
proof (induction inp arbitrary: cur)
  case Nil
  then show ?case by (auto simp: MaxScanTokenSize_def)
next
  case (Cons c cs)
  show ?case
  proof (cases "MaxScanTokenSize \<le> length cur")
    case True
    then show ?thesis by simp
  next
    case short: False
    show ?thesis
    proof (cases "c = nl")
      case True
      with Cons.prems short have "l \<in> set (text_lines [] cs)" by auto
      then have "snd (scan_tokens [] cs) = Some ErrTooLong"
        using Cons.prems(2) by (rule Cons.IH)
      with True short show ?thesis by (simp add: split_beta)
    next
      case False
      with Cons.prems have "l \<in> set (text_lines (cur @ [c]) cs)" by simp
      then have "snd (scan_tokens (cur @ [c]) cs) = Some ErrTooLong"
        using Cons.prems(2) by (rule Cons.IH)
      with False short show ?thesis by simp
    qed
  qed
qed

lemma scan_tokens_lines:
  "snd (scan_tokens cur inp) = None \<Longrightarrow>
   filter (\<lambda>line. line \<noteq> []) (fst (scan_tokens cur inp)) =
   filter (\<lambda>line. line \<noteq> []) (map dropCR (text_lines cur inp))"
proof (induction inp arbitrary: cur)
  case Nil
  then show ?case by (auto simp: dropCR_def split: if_splits)
next
  case (Cons c cs)
  then show ?case
    by (cases "c = nl") (auto simp: split_beta split: if_splits)
qed

lemma splitToLines_ok:
  "\<forall>l \<in> set (text_lines [] body). length l < MaxScanTokenSize \<Longrightarrow>
   splitToLines body = (body_lines body, None)"
  using scan_tokens_short [of "[]" body] scan_tokens_lines [of "[]" body]
  by (simp add: splitToLines_def body_lines_def split_beta)

lemma splitToLines_no_err:
  "snd (splitToLines body) = None \<Longrightarrow> fst (splitToLines body) = body_lines body"
  using scan_tokens_lines [of "[]" body]
  by (simp add: splitToLines_def body_lines_def split_beta)

lemma splitToLines_long:
  "l \<in> set (text_lines [] body) \<Longrightarrow> MaxScanTokenSize \<le> length l \<Longrightarrow>
   snd (splitToLines body) = Some ErrTooLong"
  using scan_tokens_long [of l "[]" body]
  by (simp add: splitToLines_def split_beta)

subsection \<open>Extracting the URLs\<close>

lemma check_lines_eq:
  "check_lines parse ls us =
     (us @ takeWhile (isUrl parse) ls,
      map_option not_a_URL (find (\<lambda>l. \<not> isUrl parse l) ls))"
  by (induction ls arbitrary: us) (auto simp: not_a_URL_def)

lemma find_None_iff_all: "find (\<lambda>l. \<not> P l) ls = None \<longleftrightarrow> (\<forall>l \<in> set ls. P l)"
  by (induction ls) auto

lemma getUrls_err_iff:
  "rd_err (Body req) = None \<Longrightarrow> snd (splitToLines (rd_data (Body req))) = None \<Longrightarrow>
   getUrls parse req h =
     (h\<lparr>urls := takeWhile (isUrl parse) (body_lines (rd_data (Body req)))\<rparr>,
      map_option not_a_URL (find (\<lambda>l. \<not> isUrl parse l) (body_lines (rd_data (Body req)))))"
  using splitToLines_no_err [of "rd_data (Body req)"]
  by (auto simp: getUrls_def ReadAll_def check_lines_eq split: prod.splits option.splits)

lemma getUrls_bad_line:
  "l \<in> set (body_lines (rd_data (Body req))) \<Longrightarrow> \<not> isUrl parse l \<Longrightarrow>
   snd (getUrls parse req h) \<noteq> None"
proof (cases "rd_err (Body req) = None \<and> snd (splitToLines (rd_data (Body req))) = None")
  case True
  assume "l \<in> set (body_lines (rd_data (Body req)))" "\<not> isUrl parse l"
  then have "find (\<lambda>l. \<not> isUrl parse l) (body_lines (rd_data (Body req))) \<noteq> None"
    by (auto simp: find_None_iff_all)
  with True show ?thesis by (simp add: getUrls_err_iff)
next
  case False
  then show ?thesis
    by (auto simp: getUrls_def ReadAll_def split: prod.splits option.splits)
qed

lemma serve_getUrls_err:
  "snd (getUrls parse req h) = Some e \<Longrightarrow>
   serve parse picks wr req h =
     ([HttpError (''get urls: '' @ e) StatusInternalServerError], fst (getUrls parse req h))"
  by (cases "getUrls parse req h") (simp add: serve_def)


lemma getUrls_split_err:
  "snd (splitToLines (rd_data (Body req))) = Some e \<Longrightarrow>
   \<exists>e'. snd (getUrls parse req h) = Some e' \<and> fst (getUrls parse req h) = h"
  by (auto simp: getUrls_def ReadAll_def split_beta split: option.splits)

lemma getUrls_split_err_msg:
  "rd_err (Body req) = None \<Longrightarrow> snd (splitToLines (rd_data (Body req))) = Some e \<Longrightarrow>
   snd (getUrls parse req h) = Some (''split request body to lines: '' @ e)"
  by (auto simp: getUrls_def ReadAll_def split_beta split: option.splits)

lemma status_serve_getUrls_err:
  "snd (getUrls parse req h) \<noteq> None \<Longrightarrow>
   status_of (fst (serve parse picks wr req h)) = StatusInternalServerError"
  using serve_getUrls_err [of parse req h _ picks wr] by auto

lemma MaxScanTokenSize_eq: "MaxScanTokenSize = 65536"
  by (simp add: MaxScanTokenSize_def)

lemma replicate_a_no_nl: "nl \<notin> set (replicate n (CHR ''a''))"
  by (simp add: nl_def)

text \<open>
  Claim C3, as amended. A POST request whose body has a non-empty line that is not a URL
  is answered with status 500 (internal server error), the status of every failure of
  \<^verbatim>\<open>getUrls\<close>; status 400 is the limiter's answer to a malformed peer address only.
\<close>

theorem invalid_url_status:
  assumes "Method req = MethodPost"
    and "l \<in> set (body_lines (rd_data (Body req)))" and "\<not> isUrl parse l"
  shows "status_of (fst (ServeHTTP parse picks wr req h)) = StatusInternalServerError"
  using assms getUrls_bad_line [of l req parse h]
  by (simp add: ServeHTTP_def status_serve_getUrls_err)

theorem invalid_url_status_witness:
  "Method (post ''test-1.xyz'') = MethodPost \<and>
   ''test-1.xyz'' \<in> set (body_lines (rd_data (Body (post ''test-1.xyz'')))) \<and>
   \<not> isUrl test_Parse ''test-1.xyz'' \<and>
   status_of (fst (ServeHTTP test_Parse [] write_ok (post ''test-1.xyz'')
     (new_handler mock_client))) = 500"
proof -
  have m: "Method (post ''test-1.xyz'') = MethodPost"
    by (simp add: post_def)
  have l: "''test-1.xyz'' \<in> set (body_lines (rd_data (Body (post ''test-1.xyz''))))"
    by (simp add: post_def body_lines_def dropCR_def nl_def cr_def)
  have u: "\<not> isUrl test_Parse ''test-1.xyz''"
    by (simp add: isUrl_def test_Parse_def)
  from invalid_url_status [OF m l u] m l u show ?thesis
    by (simp add: StatusInternalServerError_def)
qed

text \<open>
  Claim C3 as stated fails: the first line of the body of \<^verbatim>\<open>badRequest()\<close> is not a URL,
  and the status is not 400.
\<close>

theorem invalid_url_status_counterexample:
  "\<not> isUrl test_Parse ''test-1.xyz'' \<and>
   status_of (fst (ServeHTTP test_Parse [] write_ok (post ''test-1.xyz'')
     (new_handler mock_client))) \<noteq> StatusBadRequest"
  by (simp add: isUrl_def test_Parse_def ServeHTTP_def post_def serve_def getUrls_def
      ReadAll_def splitToLines_def MaxScanTokenSize_def dropCR_def nl_def cr_def
      StatusBadRequest_def StatusInternalServerError_def)

text \<open>
  Claim C10. A POST request whose body has a line of more than 65536 bytes, the
  scanner's default maximum token size, makes \<^verbatim>\<open>splitToLines\<close> return the scanner's
  error, and the request is answered with status 500, whatever the URL parser says of
  its lines.
\<close>

theorem long_line_rejected:
  assumes "Method req = MethodPost"
    and "l \<in> set (text_lines [] (rd_data (Body req)))" and "65536 < length l"
  shows "MaxScanTokenSize = 65536 \<and>
    snd (splitToLines (rd_data (Body req))) = Some ErrTooLong \<and>
    status_of (fst (ServeHTTP parse picks wr req h)) = StatusInternalServerError"
proof -
  from assms(3) have "MaxScanTokenSize \<le> length l"
    by (simp add: MaxScanTokenSize_eq)
  with assms(2) have err: "snd (splitToLines (rd_data (Body req))) = Some ErrTooLong"
    by (rule splitToLines_long)
  then have "snd (getUrls parse req h) \<noteq> None"
    using getUrls_split_err [of req ErrTooLong parse h] by auto
  then show ?thesis
    using assms(1) err by (simp add: ServeHTTP_def status_serve_getUrls_err MaxScanTokenSize_eq)
qed

theorem long_line_rejected_witness:
  "Method (post (replicate 65537 (CHR ''a''))) = MethodPost \<and>
   replicate 65537 (CHR ''a'') \<in> set (text_lines [] (rd_data (Body (post (replicate 65537 (CHR ''a'')))))) \<and>
   65536 < length (replicate 65537 (CHR ''a'')) \<and>
   status_of (fst (ServeHTTP test_Parse [] write_ok (post (replicate 65537 (CHR ''a'')))
     (new_handler mock_client))) = 500"
proof -
  let ?b = "replicate 65537 (CHR ''a'')"
  have m: "Method (post ?b) = MethodPost"
    by (simp add: post_def)
  have l: "?b \<in> set (text_lines [] (rd_data (Body (post ?b))))"
    by (simp add: post_def text_lines_no_nl [OF replicate_a_no_nl])
  have n: "65536 < length ?b"
    by (simp)
  from long_line_rejected [OF m l n] m l n show ?thesis
    by (simp add: StatusInternalServerError_def)
qed

text \<open>
  Claim C5, as amended. For a body that was read without error and whose lines are all
  shorter than the scanner's 65536-byte token limit: \<^verbatim>\<open>splitToLines\<close> returns the non-empty
  lines of the body (split at newlines, a carriage return before the newline dropped);
  a line counts as a URL exactly when the parser gives it a non-empty scheme and a
  non-empty host; when every line is a URL the lines become the URL list; and when some
  line is not, \<^verbatim>\<open>getUrls\<close> fails with the message that quotes the first such line,
  \<^verbatim>\<open>serve\<close> answers with that error alone and the collector is left as it was.
\<close>

theorem getUrls_all_or_nothing:
  assumes short: "\<forall>l \<in> set (text_lines [] body). length l < MaxScanTokenSize"
    and body: "Body req = \<lparr>rd_data = body, rd_err = None\<rparr>"
  shows "splitToLines body = (body_lines body, None) \<and>
    (\<forall>l. isUrl parse l \<longleftrightarrow> (\<exists>u. parse l = Some u \<and> Scheme u \<noteq> [] \<and> Host u \<noteq> [])) \<and>
    ((\<forall>l \<in> set (body_lines body). isUrl parse l) \<longrightarrow>
       getUrls parse req h = (h\<lparr>urls := body_lines body\<rparr>, None)) \<and>
    ((\<exists>l \<in> set (body_lines body). \<not> isUrl parse l) \<longrightarrow>
       (\<exists>bad \<in> set (body_lines body). \<not> isUrl parse bad \<and>
          find (\<lambda>l. \<not> isUrl parse l) (body_lines body) = Some bad \<and>
          snd (getUrls parse req h) = Some (not_a_URL bad) \<and>
          sizes (fst (getUrls parse req h)) = sizes h \<and>
          serve parse picks wr req h =
            ([HttpError (''get urls: '' @ not_a_URL bad) StatusInternalServerError],
             fst (getUrls parse req h))))"
proof -
  have split: "splitToLines body = (body_lines body, None)"
    using short by (rule splitToLines_ok)
  have isurl: "\<forall>l. isUrl parse l \<longleftrightarrow> (\<exists>u. parse l = Some u \<and> Scheme u \<noteq> [] \<and> Host u \<noteq> [])"
    by (auto simp: isUrl_def split: option.splits)
  have get: "getUrls parse req h =
     (h\<lparr>urls := takeWhile (isUrl parse) (body_lines body)\<rparr>,
      map_option not_a_URL (find (\<lambda>l. \<not> isUrl parse l) (body_lines body)))"
    using getUrls_err_iff [of req parse h] split body by simp
  have good: "getUrls parse req h = (h\<lparr>urls := body_lines body\<rparr>, None)"
    if "\<forall>l \<in> set (body_lines body). isUrl parse l"
  proof -
    from that have "takeWhile (isUrl parse) (body_lines body) = body_lines body"
      by (simp add: takeWhile_eq_all_conv)
    moreover from that have "find (\<lambda>l. \<not> isUrl parse l) (body_lines body) = None"
      by (simp add: find_None_iff_all)
    ultimately show ?thesis by (simp add: get)
  qed
  have bad: "\<exists>bad \<in> set (body_lines body). \<not> isUrl parse bad \<and>
          find (\<lambda>l. \<not> isUrl parse l) (body_lines body) = Some bad \<and>
          snd (getUrls parse req h) = Some (not_a_URL bad) \<and>
          sizes (fst (getUrls parse req h)) = sizes h \<and>
          serve parse picks wr req h =
            ([HttpError (''get urls: '' @ not_a_URL bad) StatusInternalServerError],
             fst (getUrls parse req h))"
    if "\<exists>l \<in> set (body_lines body). \<not> isUrl parse l"
  proof -
    from that obtain b where b: "find (\<lambda>l. \<not> isUrl parse l) (body_lines body) = Some b"
      using find_None_iff_all [of "isUrl parse" "body_lines body"] by auto
    then have mem: "b \<in> set (body_lines body)" and nb: "\<not> isUrl parse b"
      by (auto simp: find_Some_iff)
    from b have e: "snd (getUrls parse req h) = Some (not_a_URL b)"
      by (simp add: get)
    from mem nb b e serve_getUrls_err [OF e, of picks wr] show ?thesis
      by (auto simp: get)
  qed
  from split isurl good bad show ?thesis by blast
qed

theorem getUrls_all_or_nothing_witness:
  "text_lines [] (''https://test-1.com'' @ [nl, nl] @ ''test-1.xyz'' @ [cr, nl] @ ''http://test-2.com'')
     = [''https://test-1.com'', [], ''test-1.xyz'' @ [cr], ''http://test-2.com''] \<and>
   Body (post (''https://test-1.com'' @ [nl, nl] @ ''test-1.xyz'' @ [cr, nl] @ ''http://test-2.com''))
     = \<lparr>rd_data = ''https://test-1.com'' @ [nl, nl] @ ''test-1.xyz'' @ [cr, nl] @ ''http://test-2.com'',
        rd_err = None\<rparr> \<and>
   splitToLines (''https://test-1.com'' @ [nl, nl] @ ''test-1.xyz'' @ [cr, nl] @ ''http://test-2.com'')
     = ([''https://test-1.com'', ''test-1.xyz'', ''http://test-2.com''], None) \<and>
   snd (getUrls test_Parse
     (post (''https://test-1.com'' @ [nl, nl] @ ''test-1.xyz'' @ [cr, nl] @ ''http://test-2.com''))
     (new_handler mock_client)) = Some (not_a_URL ''test-1.xyz'')"
proof -
  let ?b = "''https://test-1.com'' @ [nl, nl] @ ''test-1.xyz'' @ [cr, nl] @ ''http://test-2.com''"
  have tl: "text_lines [] ?b = [''https://test-1.com'', [], ''test-1.xyz'' @ [cr], ''http://test-2.com'']"
    by (simp add: nl_def cr_def)
  have h1: "\<forall>l \<in> set (text_lines [] ?b). length l < MaxScanTokenSize"
    unfolding tl by (simp add: MaxScanTokenSize_def)
  have h2: "Body (post ?b) = \<lparr>rd_data = ?b, rd_err = None\<rparr>"
    by (simp add: post_def)
  have bl: "body_lines ?b = [''https://test-1.com'', ''test-1.xyz'', ''http://test-2.com'']"
    unfolding body_lines_def tl by (simp add: dropCR_def cr_def)
  have u: "isUrl test_Parse ''https://test-1.com''" "\<not> isUrl test_Parse ''test-1.xyz''"
    by (simp_all add: isUrl_def test_Parse_def)
  note inst = getUrls_all_or_nothing [OF h1 h2, of test_Parse "new_handler mock_client" "[]" write_ok]
  from inst have "splitToLines ?b = (body_lines ?b, None)" by blast
  moreover from inst u have "snd (getUrls test_Parse (post ?b) (new_handler mock_client))
      = Some (not_a_URL ''test-1.xyz'')"
    unfolding bl by auto
  ultimately show ?thesis using tl h2 unfolding bl by blast
qed

text \<open>
  Claim C5 as stated fails on a body with a line that is not a URL followed by a line of
  70000 bytes: the request fails with the scanner's error, which does not carry the
  offending line.
\<close>

theorem getUrls_all_or_nothing_counterexample:
  "''test-1.xyz'' \<in> set (text_lines [] (''test-1.xyz'' @ nl # replicate 70000 (CHR ''a''))) \<and>
   \<not> isUrl test_Parse ''test-1.xyz'' \<and>
   snd (getUrls test_Parse (post (''test-1.xyz'' @ nl # replicate 70000 (CHR ''a'')))
     (new_handler mock_client)) = Some (''split request body to lines: '' @ ErrTooLong) \<and>
   snd (getUrls test_Parse (post (''test-1.xyz'' @ nl # replicate 70000 (CHR ''a'')))
     (new_handler mock_client)) \<noteq> Some (not_a_URL ''test-1.xyz'')"
proof -
  let ?long = "replicate 70000 (CHR ''a'')"
  let ?b = "''test-1.xyz'' @ nl # ?long"
  have "nl \<notin> set ''test-1.xyz''" by (simp add: nl_def)
  then have "text_lines [] ?b = ([] @ ''test-1.xyz'') # text_lines [] ?long"
    by (rule text_lines_append_nl)
  then have tl: "text_lines [] ?b = [''test-1.xyz'', ?long]"
    by (simp only: text_lines_no_nl [OF replicate_a_no_nl] append_Nil)
  have "?long \<in> set (text_lines [] (rd_data (Body (post ?b))))"
    unfolding post_def by (simp only: tl request.simps reader.simps) simp
  moreover have "MaxScanTokenSize \<le> length ?long"
    by (simp add: MaxScanTokenSize_def)
  ultimately have "snd (splitToLines (rd_data (Body (post ?b)))) = Some ErrTooLong"
    by (rule splitToLines_long)
  moreover have "rd_err (Body (post ?b)) = None" by (simp add: post_def)
  ultimately have e: "snd (getUrls test_Parse (post ?b) (new_handler mock_client))
      = Some (''split request body to lines: '' @ ErrTooLong)"
    by (rule getUrls_split_err_msg [rotated])
  have ne: "''split request body to lines: '' @ ErrTooLong \<noteq> not_a_URL ''test-1.xyz''"
    by (simp add: not_a_URL_def quote_def)
  have m: "''test-1.xyz'' \<in> set (text_lines [] ?b)"
    by (simp only: tl) simp
  have u: "\<not> isUrl test_Parse ''test-1.xyz''"
    by (simp add: isUrl_def test_Parse_def)
  from m u e ne show ?thesis by simp
qed

subsection \<open>The rate limiter\<close>

lemma count_of_Reset: "count_of (Reset sh) ident = 0"
  by (simp add: count_of_def Reset_def)

lemma Increment_count: "count_of (snd (Increment ident sh)) ident = count_of sh ident + 1"
  by (simp add: Increment_def count_of_def Let_def)

lemma Increment_result: "fst (Increment ident sh) = count_of sh ident + 1"
  by (simp add: Increment_def count_of_def Let_def)

lemma Increment_other:
  "other \<noteq> ident \<Longrightarrow> count_of (snd (Increment ident sh)) other = count_of sh other"
  by (simp add: Increment_def count_of_def Let_def)

lemma RateLimit_bad_addr:
  "split (RemoteAddr req) = Inl e \<Longrightarrow>
   RateLimit split limit next req st =
     ([HttpError (StatusText StatusBadRequest) StatusBadRequest], st)"
  by (simp add: RateLimit_def requestIP_def)

lemma RateLimit_over:
  "split (RemoteAddr req) = Inr (ip, port) \<Longrightarrow> limit < sint (count_of (fst st) ip + 1) \<Longrightarrow>
   RateLimit split limit next req st =
     ([HttpError (StatusText StatusTooManyRequests) StatusTooManyRequests],
      (snd (Increment ip (fst st)), snd st))"
  by (simp add: RateLimit_def requestIP_def split_beta Let_def Increment_result)

lemma RateLimit_within:
  "split (RemoteAddr req) = Inr (ip, port) \<Longrightarrow> \<not> limit < sint (count_of (fst st) ip + 1) \<Longrightarrow>
   RateLimit split limit next req st =
     (fst (next req (snd st)), (snd (Increment ip (fst st)), snd (next req (snd st))))"
  by (simp add: RateLimit_def requestIP_def split_beta Let_def Increment_result)

lemma RateLimit_count:
  "split (RemoteAddr req) = Inr (ip, port) \<Longrightarrow>
   count_of (fst (snd (RateLimit split limit next req st))) ip = count_of (fst st) ip + 1"
  by (cases "limit < sint (count_of (fst st) ip + 1)")
     (simp_all add: RateLimit_over RateLimit_within Increment_count)

lemma run_events_append:
  "run_events h (evs @ evs') st =
     (fst (run_events h evs st) @ fst (run_events h evs' (snd (run_events h evs st))),
      snd (run_events h evs' (snd (run_events h evs st))))"
proof (induction evs arbitrary: st)
  case Nil
  then show ?case by simp
next
  case (Cons ev evs)
  then show ?case by (cases ev) (simp_all add: split_beta)
qed

lemma run_events_requests_count:
  "split (RemoteAddr req) = Inr (ip, port) \<Longrightarrow>
   count_of (fst (snd (run_events (RateLimit split limit next) (replicate n (Request req)) st))) ip
     = count_of (fst st) ip + of_nat n"
proof (induction n arbitrary: st)
  case 0
  then show ?case by simp
next
  case (Suc n)
  then show ?case
    by (simp add: split_beta RateLimit_count)
qed

lemma sint_of_nat_small: "n < 2 ^ 31 \<Longrightarrow> sint (of_nat n :: 32 word) = int n"
  by (simp add: signed_of_nat signed_take_bit_int_eq_self)


lemma sint_succ_small: "n < 2 ^ 31 - 1 \<Longrightarrow> sint (of_nat n + 1 :: 32 word) = int n + 1"
  using sint_of_nat_small [of "Suc n"] by (simp add: add.commute)

text \<open>
  Claim C7. When the peer address of a request does not split into host and port, the
  limiter answers with status 400 and nothing else happens: the counter store and the
  state of the wrapped handler are unchanged, so no key is incremented, the wrapped
  handler is not called, and the answer is not the rate-limited one.
\<close>

theorem malformed_addr_bad_request:
  assumes "split (RemoteAddr req) = Inl e"
  shows "RateLimit split limit next req (sh, st) = ([HttpError ''Bad Request'' 400], (sh, st)) \<and>
    status_of (fst (RateLimit split limit next req (sh, st))) = StatusBadRequest \<and>
    status_of (fst (RateLimit split limit next req (sh, st))) \<noteq> StatusTooManyRequests \<and>
    (\<forall>ident. count_of (fst (snd (RateLimit split limit next req (sh, st)))) ident
       = count_of sh ident)"
  using assms
  by (simp add: RateLimit_bad_addr StatusText_def StatusBadRequest_def StatusTooManyRequests_def)

theorem malformed_addr_bad_request_witness:
  "test_SplitHostPort (RemoteAddr \<lparr>Method = ''GET'', RemoteAddr = ''0.0.0.0'',
       Body = \<lparr>rd_data = [], rd_err = None\<rparr>\<rparr>)
     = Inl ''address 0.0.0.0: missing port in address'' \<and>
   RateLimit test_SplitHostPort 3 mock_handler
     \<lparr>Method = ''GET'', RemoteAddr = ''0.0.0.0'', Body = \<lparr>rd_data = [], rd_err = None\<rparr>\<rparr>
     (NewStatHolder, ()) = ([HttpError ''Bad Request'' 400], (NewStatHolder, ()))"
proof -
  let ?req = "\<lparr>Method = ''GET'', RemoteAddr = ''0.0.0.0'', Body = \<lparr>rd_data = [], rd_err = None\<rparr>\<rparr>"
  have a: "test_SplitHostPort (RemoteAddr ?req) = Inl ''address 0.0.0.0: missing port in address''"
    by (simp add: test_SplitHostPort_def)
  from malformed_addr_bad_request [of test_SplitHostPort ?req _ 3 mock_handler NewStatHolder "()"] a
  show ?thesis by blast
qed

lemma state_after_requests_count:
  "split (RemoteAddr req) = Inr (ip, port) \<Longrightarrow>
   count_of (fst (state_after (RateLimit split limit next) (replicate n (Request req)) st)) ip
     = count_of (fst st) ip + of_nat n"
  unfolding state_after_def by (rule run_events_requests_count)

lemma state_after_tick:
  "fst (state_after h (evs @ [Tick]) st) = Reset (fst (state_after h evs st))"
  by (simp add: state_after_def run_events_append)

text \<open>
  Claim C4, as amended. For a limit \<open>L\<close> with \<open>0 < L < 2\<^sup>3\<^sup>1 - 1\<close> and requests of one
  client key that start on a fresh count: each of the first \<open>L\<close> requests is handed to
  the wrapped handler, whose answer and state are the result; the request after them is
  answered with status 429 (Too Many Requests) without calling the wrapped handler; and
  after the next tick of the ticker a request of the same key is handed on again, its
  count being 1.
\<close>

theorem fixed_window_limit:
  assumes L: "0 < L" "L < 2 ^ 31 - 1"
    and addr: "split (RemoteAddr req) = Inr (ip, port)"
    and fresh: "count_of sh ip = 0"
  shows "(\<forall>k < nat L.
       RateLimit split L next req
           (state_after (RateLimit split L next) (replicate k (Request req)) (sh, s0)) =
         (fst (next req (snd (state_after (RateLimit split L next) (replicate k (Request req)) (sh, s0)))),
          (snd (Increment ip (fst (state_after (RateLimit split L next) (replicate k (Request req)) (sh, s0)))),
           snd (next req (snd (state_after (RateLimit split L next) (replicate k (Request req)) (sh, s0))))))) \<and>
    RateLimit split L next req
        (state_after (RateLimit split L next) (replicate (nat L) (Request req)) (sh, s0)) =
      ([HttpError ''Too Many Requests'' 429],
       (snd (Increment ip (fst (state_after (RateLimit split L next) (replicate (nat L) (Request req)) (sh, s0)))),
        snd (state_after (RateLimit split L next) (replicate (nat L) (Request req)) (sh, s0)))) \<and>
    fst (RateLimit split L next req
        (state_after (RateLimit split L next) (replicate (nat L + 1) (Request req) @ [Tick]) (sh, s0))) =
      fst (next req (snd (state_after (RateLimit split L next) (replicate (nat L + 1) (Request req) @ [Tick]) (sh, s0)))) \<and>
    sint (count_of (fst (snd (RateLimit split L next req
        (state_after (RateLimit split L next) (replicate (nat L + 1) (Request req) @ [Tick]) (sh, s0))))) ip) = 1"
proof -
  let ?H = "RateLimit split L next"
  let ?after = "\<lambda>evs. state_after ?H evs (sh, s0)"
  have cnt: "count_of (fst (?after (replicate k (Request req)))) ip = of_nat k" for k
    using state_after_requests_count [of split req ip port L "next" k "(sh, s0)"] addr fresh
    by simp
  have within: "RateLimit split L next req (?after (replicate k (Request req))) =
         (fst (next req (snd (?after (replicate k (Request req))))),
          (snd (Increment ip (fst (?after (replicate k (Request req))))),
           snd (next req (snd (?after (replicate k (Request req)))))))" if "k < nat L" for k
  proof -
    from that L have "k < 2 ^ 31 - 1" by simp
    then have "sint (of_nat k + 1 :: 32 word) = int k + 1" by (rule sint_succ_small)
    with that have "\<not> L < sint (count_of (fst (?after (replicate k (Request req)))) ip + 1)"
      by (simp add: cnt)
    with addr show ?thesis by (rule RateLimit_within)
  qed
  have over: "RateLimit split L next req (?after (replicate (nat L) (Request req))) =
      ([HttpError ''Too Many Requests'' 429],
       (snd (Increment ip (fst (?after (replicate (nat L) (Request req))))),
        snd (?after (replicate (nat L) (Request req)))))"
  proof -
    from L have "nat L < 2 ^ 31 - 1" by simp
    then have "sint (of_nat (nat L) + 1 :: 32 word) = int (nat L) + 1" by (rule sint_succ_small)
    with L have "L < sint (count_of (fst (?after (replicate (nat L) (Request req)))) ip + 1)"
      by (simp add: cnt)
    with addr show ?thesis
      by (simp add: RateLimit_over StatusText_def StatusTooManyRequests_def)
  qed
  let ?st1 = "?after (replicate (nat L + 1) (Request req) @ [Tick])"
  have zero: "count_of (fst ?st1) ip = 0"
    by (simp only: state_after_tick count_of_Reset)
  with L have nlt: "\<not> L < sint (count_of (fst ?st1) ip + 1)" by simp
  have again: "fst (RateLimit split L next req ?st1) = fst (next req (snd ?st1))"
    using RateLimit_within [of split req ip port L ?st1 "next"] addr nlt by simp
  have one: "sint (count_of (fst (snd (RateLimit split L next req ?st1))) ip) = 1"
    using RateLimit_count [of split req ip port L "next" ?st1] addr zero by simp
  from within over again one show ?thesis by blast
qed


theorem fixed_window_limit_witness:
  "(0::int) < 3 \<and> (3::int) < 2 ^ 31 - 1 \<and>
   test_SplitHostPort (RemoteAddr (requestWithIP ''127.0.0.1:80'')) = Inr (''127.0.0.1'', ''80'') \<and>
   count_of NewStatHolder ''127.0.0.1'' = 0 \<and>
   fst (RateLimit test_SplitHostPort 3 mock_handler (requestWithIP ''127.0.0.1:80'')
     (state_after (RateLimit test_SplitHostPort 3 mock_handler)
        (replicate (nat 3) (Request (requestWithIP ''127.0.0.1:80''))) (NewStatHolder, ())))
   = [HttpError ''Too Many Requests'' 429]"
proof -
  have a: "test_SplitHostPort (RemoteAddr (requestWithIP ''127.0.0.1:80'')) = Inr (''127.0.0.1'', ''80'')"
    by (simp add: test_SplitHostPort_def requestWithIP_def)
  have f: "count_of NewStatHolder ''127.0.0.1'' = 0"
    by (simp add: count_of_def NewStatHolder_def)
  from fixed_window_limit [of 3 test_SplitHostPort "requestWithIP ''127.0.0.1:80''"
      "''127.0.0.1''" "''80''" NewStatHolder mock_handler "()"] a f
  show ?thesis by simp
qed

text \<open>
  Claim C4 as stated fails for the limit \<open>2\<^sup>3\<^sup>1 - 1\<close>: the count of the request after the
  first \<open>2\<^sup>3\<^sup>1 - 1\<close> wraps around to \<open>- 2\<^sup>3\<^sup>1\<close>, which is not above the limit, and the
  request is handed to the wrapped handler (here the mock, which writes nothing).
\<close>

theorem fixed_window_limit_counterexample:
  "(0::int) < 2147483647 \<and>
   fst (RateLimit test_SplitHostPort 2147483647 mock_handler (requestWithIP ''127.0.0.1:80'')
     (state_after (RateLimit test_SplitHostPort 2147483647 mock_handler)
        (replicate 2147483647 (Request (requestWithIP ''127.0.0.1:80''))) (NewStatHolder, ())))
   \<noteq> [HttpError ''Too Many Requests'' 429]"
proof -
  let ?req = "requestWithIP ''127.0.0.1:80''"
  let ?H = "RateLimit test_SplitHostPort 2147483647 mock_handler"
  let ?st = "state_after ?H (replicate 2147483647 (Request ?req)) (NewStatHolder, ())"
  have a: "test_SplitHostPort (RemoteAddr ?req) = Inr (''127.0.0.1'', ''80'')"
    by (simp add: test_SplitHostPort_def requestWithIP_def)
  have f: "count_of NewStatHolder ''127.0.0.1'' = 0"
    by (simp add: count_of_def NewStatHolder_def)
  have "count_of (fst ?st) ''127.0.0.1'' = 0 + of_nat 2147483647"
    using state_after_requests_count [of test_SplitHostPort ?req "''127.0.0.1''" "''80''"
        2147483647 mock_handler 2147483647 "(NewStatHolder, ())"] a f
    by simp
  then have "sint (count_of (fst ?st) ''127.0.0.1'' + 1) = - 2147483648"
    by simp
  then have "\<not> 2147483647 < sint (count_of (fst ?st) ''127.0.0.1'' + 1)"
    by simp
  then have "fst (?H ?req ?st) = fst (mock_handler ?req (snd ?st))"
    using RateLimit_within [of test_SplitHostPort ?req "''127.0.0.1''" "''80''" 2147483647 ?st
        mock_handler] a
    by simp
  then show ?thesis by (simp add: mock_handler_def)
qed

subsection \<open>The fan-out of fetch tasks\<close>

lemma pick_less: "0 < n \<Longrightarrow> pick picks n < n"
  by (cases picks) (simp_all add: pick_def)

lemma task_step_err_var: "err_var (snd (task_step cl t st)) = err_var st"
  by (cases t) (auto split: prod.splits option.splits)

lemma task_step_Some:
  "task_step cl t st = (Some u, st') \<Longrightarrow>
   final_size cl u = final_size cl t \<and> collected st' = collected st"
  by (cases t) (auto split: prod.splits option.splits if_splits)

lemma task_step_None:
  "task_step cl t st = (None, st') \<Longrightarrow>
   s (collected st') = s (collected st) @ [final_size cl t]"
  by (cases t) (auto simp: resSizes_Add_def split: prod.splits option.splits if_splits)

lemma run_tasks_err_var: "err_var (run_tasks cl picks pending st) = err_var st"
proof (induction cl picks pending st rule: run_tasks.induct)
  case (1 cl picks st)
  then show ?case by simp
next
  case (2 cl picks t ts st)
  let ?k = "pick picks (length (t # ts))"
  obtain t' st' where step: "task_step cl ((t # ts) ! ?k) st = (t', st')"
    by (cases "task_step cl ((t # ts) ! ?k) st")
  from 2 [OF refl refl step [symmetric]]
  have "err_var (run_tasks cl (tl picks) (advance ?k t' (t # ts)) st') = err_var st'" .
  moreover from step have "err_var st' = err_var st"
    using task_step_err_var [of cl "(t # ts) ! ?k" st] by simp
  ultimately show ?case
    using step by (simp add: run_tasks.simps(2) [of cl picks t ts st] Let_def)
qed

lemma mset_map_advance_Some:
  "k < length pending \<Longrightarrow> f u = f (pending ! k) \<Longrightarrow>
   mset (map f (advance k (Some u) pending)) = mset (map f pending)"
proof -
  assume k: "k < length pending" and f: "f u = f (pending ! k)"
  have "(map f pending)[k := f (pending ! k)] = map f pending"
    using k by (metis list_update_id nth_map)
  with f show ?thesis by (simp add: advance_def map_update)
qed

lemma mset_map_advance_None:
  assumes "k < length pending"
  shows "mset (map f (advance k None pending)) + {#f (pending ! k)#} = mset (map f pending)"
proof -
  have "mset (map f pending) = mset (map f (take k pending @ pending ! k # drop (Suc k) pending))"
    using assms by (simp only: id_take_nth_drop [symmetric])
  then show ?thesis by (simp add: advance_def)
qed

lemma run_tasks_sizes:
  "mset (s (collected (run_tasks cl picks pending st))) =
   mset (s (collected st)) + mset (map (final_size cl) pending)"
proof (induction cl picks pending st rule: run_tasks.induct)
  case (1 cl picks st)
  then show ?case by simp
next
  case (2 cl picks t ts st)
  let ?p = "t # ts"
  let ?k = "pick picks (length ?p)"
  have k: "?k < length ?p" by (rule pick_less) simp
  obtain t' st' where step: "task_step cl (?p ! ?k) st = (t', st')"
    by (cases "task_step cl (?p ! ?k) st")
  from 2 [OF refl refl step [symmetric]]
  have IH: "mset (s (collected (run_tasks cl (tl picks) (advance ?k t' ?p) st'))) =
      mset (s (collected st')) + mset (map (final_size cl) (advance ?k t' ?p))" .
  have run: "run_tasks cl picks ?p st = run_tasks cl (tl picks) (advance ?k t' ?p) st'"
    using step by (simp add: run_tasks.simps(2) [of cl picks t ts st] Let_def)
  show ?case
  proof (cases t')
    case None
    with step have "s (collected st') = s (collected st) @ [final_size cl (?p ! ?k)]"
      by (simp add: task_step_None)
    with IH None mset_map_advance_None [OF k, of "final_size cl"] show ?thesis
      by (simp only: run) (simp add: add.assoc [symmetric])
  next
    case (Some u)
    with step have "final_size cl u = final_size cl (?p ! ?k)" "collected st' = collected st"
      using task_step_Some [of cl "?p ! ?k" st u st'] by simp_all
    with IH Some mset_map_advance_Some [OF k, of "final_size cl" u] show ?thesis
      by (simp only: run)
  qed
qed

lemma getRespSizes_err: "snd (getRespSizes picks h) = None"
  by (simp add: getRespSizes_def Let_def run_tasks_err_var)

lemma getRespSizes_sizes:
  "mset (s (sizes (fst (getRespSizes picks h)))) =
   mset (map (\<lambda>url. fst (doGet (client h) url)) (urls h))"
  by (simp add: getRespSizes_def Let_def run_tasks_sizes comp_def)

lemma getRespSizes_fields:
  "urls (fst (getRespSizes picks h)) = urls h \<and> client (fst (getRespSizes picks h)) = client h"
  by (simp add: getRespSizes_def Let_def)


lemma text_lines_String:
  "s rs \<noteq> [] \<Longrightarrow> text_lines [] (resSizes_String rs) = map Itoa (s rs)"
  by (simp add: resSizes_String_def String_loop_join text_lines_join Itoa_no_nl)

lemma hd_write_sizes: "hd (write_sizes wr h) = WriteCall (resSizes_String (sizes h))"
  by (simp add: write_sizes_def Let_def split: option.splits)

lemma status_write_sizes: "status_of (write_sizes wr h) = 200"
  by (simp add: write_sizes_def Let_def split: option.splits)

lemma serve_getUrls_ok:
  "snd (getUrls parse req h) = None \<Longrightarrow>
   serve parse picks wr req h =
     (write_sizes wr (fst (getRespSizes picks (fst (getUrls parse req h)))),
      fst (getRespSizes picks (fst (getUrls parse req h))))"
  using getRespSizes_err [of picks "fst (getUrls parse req h)"]
  by (simp add: serve_def split_beta)

text \<open>
  Claim C1. \<^verbatim>\<open>getRespSizes\<close> returns the nil error whatever the fetches did, for every
  order in which the tasks run: an error of a fetch is assigned to the parameter of its
  task only. So once \<^verbatim>\<open>getUrls\<close> has succeeded, \<^verbatim>\<open>serve\<close> writes the rendered collector
  first, and the status of the response is 200.
\<close>

theorem fetch_error_not_returned:
  "snd (getRespSizes picks h) = None \<and>
   (snd (getUrls parse req h) = None \<longrightarrow>
      hd (fst (serve parse picks wr req h)) =
        WriteCall (resSizes_String (sizes (snd (serve parse picks wr req h)))) \<and>
      status_of (fst (serve parse picks wr req h)) = 200)"
proof (intro conjI impI)
  show "snd (getRespSizes picks h) = None"
    by (rule getRespSizes_err)
next
  assume "snd (getUrls parse req h) = None"
  then have run: "serve parse picks wr req h =
      (write_sizes wr (fst (getRespSizes picks (fst (getUrls parse req h)))),
       fst (getRespSizes picks (fst (getUrls parse req h))))"
    by (rule serve_getUrls_ok)
  show "hd (fst (serve parse picks wr req h)) =
      WriteCall (resSizes_String (sizes (snd (serve parse picks wr req h))))"
    by (simp add: run hd_write_sizes)
  show "status_of (fst (serve parse picks wr req h)) = 200"
    by (simp add: run status_write_sizes)
qed

theorem fetch_error_not_returned_witness:
  "urls (fst (getUrls test_Parse (post ''https://test-1.com'') (new_handler failing_client)))
     = [''https://test-1.com''] \<and>
   snd (doGet failing_client ''https://test-1.com'') \<noteq> None \<and>
   snd (getUrls test_Parse (post ''https://test-1.com'') (new_handler failing_client)) = None \<and>
   status_of (fst (serve test_Parse [] write_ok (post ''https://test-1.com'')
     (new_handler failing_client))) = 200"
proof -
  have g: "getUrls test_Parse (post ''https://test-1.com'') (new_handler failing_client)
      = ((new_handler failing_client)\<lparr>urls := [''https://test-1.com'']\<rparr>, None)"
    by (simp add: getUrls_def post_def ReadAll_def splitToLines_def MaxScanTokenSize_def
        dropCR_def nl_def cr_def isUrl_def test_Parse_def)
  have d: "snd (doGet failing_client ''https://test-1.com'') \<noteq> None"
    by (simp add: doGet_def failing_client_def)
  from fetch_error_not_returned [of "[]" "new_handler failing_client" test_Parse
      "post ''https://test-1.com''" write_ok] g d
  show ?thesis by simp
qed

text \<open>
  Claim C2, as amended. Every task adds the size that \<^verbatim>\<open>doGet\<close> returned, whether the
  fetch failed or not (0 when \<^verbatim>\<open>Get\<close> failed): for \<open>N\<close> URLs the collector ends with \<open>N\<close>
  sizes, those of the \<open>N\<close> fetches in the order in which the tasks finish, and the
  rendered response has \<open>N\<close> lines.
\<close>

theorem every_fetch_recorded:
  "mset (s (sizes (fst (getRespSizes picks h)))) =
     mset (map (\<lambda>url. fst (doGet (client h) url)) (urls h)) \<and>
   length (s (sizes (fst (getRespSizes picks h)))) = length (urls h) \<and>
   (\<forall>url e. client h url = Inl e \<longrightarrow> fst (doGet (client h) url) = 0) \<and>
   (urls h \<noteq> [] \<longrightarrow>
      length (text_lines [] (resSizes_String (sizes (fst (getRespSizes picks h)))))
        = length (urls h))"
proof -
  let ?sizes = "s (sizes (fst (getRespSizes picks h)))"
  have m: "mset ?sizes = mset (map (\<lambda>url. fst (doGet (client h) url)) (urls h))"
    by (rule getRespSizes_sizes)
  then have len: "length ?sizes = length (urls h)"
    using mset_eq_length by fastforce
  have zero: "\<forall>url e. client h url = Inl e \<longrightarrow> fst (doGet (client h) url) = 0"
    by (simp add: doGet_def)
  have "urls h \<noteq> [] \<longrightarrow>
      length (text_lines [] (resSizes_String (sizes (fst (getRespSizes picks h)))))
        = length (urls h)"
  proof
    assume "urls h \<noteq> []"
    with len have "?sizes \<noteq> []" by auto
    then show "length (text_lines [] (resSizes_String (sizes (fst (getRespSizes picks h)))))
        = length (urls h)"
      by (simp add: text_lines_String len)
  qed
  with m len zero show ?thesis by blast
qed

theorem every_fetch_recorded_witness:
  "urls ((new_handler failing_client)\<lparr>urls := [''https://test-1.com'']\<rparr>) \<noteq> [] \<and>
   client ((new_handler failing_client)\<lparr>urls := [''https://test-1.com'']\<rparr>)
     ''https://test-1.com'' = Inl ''connection refused'' \<and>
   length (text_lines [] (resSizes_String (sizes (fst (getRespSizes []
     ((new_handler failing_client)\<lparr>urls := [''https://test-1.com'']\<rparr>)))))) = 1"
proof -
  let ?h = "(new_handler failing_client)\<lparr>urls := [''https://test-1.com'']\<rparr>"
  have u: "urls ?h = [''https://test-1.com'']" by (simp add: new_handler_def)
  have c: "client ?h ''https://test-1.com'' = Inl ''connection refused''"
    by (simp add: new_handler_def failing_client_def)
  from every_fetch_recorded [of "[]" ?h] u c show ?thesis by simp
qed

text \<open>
  Claim C2 as stated fails: with one URL whose fetch fails, one size (0) is recorded and
  the response is the line \<open>0\<close>, where the claim has \<open>1 - 1 = 0\<close> lines.
\<close>

theorem every_fetch_recorded_counterexample:
  "s (sizes (fst (getRespSizes []
     ((new_handler failing_client)\<lparr>urls := [''https://test-1.com'']\<rparr>)))) = [0] \<and>
   resSizes_String (sizes (fst (getRespSizes []
     ((new_handler failing_client)\<lparr>urls := [''https://test-1.com'']\<rparr>)))) = ''0'' \<and>
   length (s (sizes (fst (getRespSizes []
     ((new_handler failing_client)\<lparr>urls := [''https://test-1.com'']\<rparr>))))) \<noteq>
   length (urls ((new_handler failing_client)\<lparr>urls := [''https://test-1.com'']\<rparr>)) -
   length (filter (\<lambda>url. snd (doGet failing_client url) \<noteq> None)
     (urls ((new_handler failing_client)\<lparr>urls := [''https://test-1.com'']\<rparr>)))"
  by (simp add: getRespSizes_def new_handler_def run_tasks.simps(2) pick_def advance_def
      doGet_def failing_client_def resSizes_Add_def resSizes_String_def Itoa_def
      dec_digits.simps digit_char_def Let_def)

subsection \<open>One collector for all requests\<close>

text \<open>
  Claim C9 does not hold of the code: \<^verbatim>\<open>urls\<close> and \<^verbatim>\<open>sizes\<close> are fields of the one
  \<^verbatim>\<open>ResponseSizeCounter\<close> that serves every request. Served alone, the request for the
  first URL is answered with \<open>10\<close>; overtaken by a request for another URL, it is
  answered with \<open>20\<close>, the size fetched for the other request, and its own size is gone.
\<close>

theorem shared_collector_overtaken:
  "fst (serve test_Parse [] write_ok (post ''https://test-1.com'') (new_handler sized_client))
     = [WriteCall ''10''] \<and>
   serve_overtaken test_Parse write_ok (post ''https://test-1.com'') (post ''http://test-2.com'')
     (new_handler sized_client) = ([WriteCall ''20''], [WriteCall ''20''])"
  by (simp add: serve_overtaken_def serve_def getUrls_def post_def ReadAll_def splitToLines_def
      MaxScanTokenSize_def dropCR_def nl_def cr_def isUrl_def test_Parse_def
      getRespSizes_def new_handler_def run_tasks.simps(2) pick_def advance_def
      doGet_def sized_client_def resSizes_Add_def resSizes_String_def Itoa_def
      dec_digits.simps digit_char_def Let_def write_sizes_def write_ok_def)

subsection \<open>Concurrent increments\<close>

lemma filter_update_length:
  "i < length xs \<Longrightarrow>
   length (filter P (xs[i := y])) + (if P (xs ! i) then 1 else 0)
     = length (filter P xs) + (if P y then 1 else 0)"
proof (induction xs arbitrary: i)
  case Nil
  then show ?case by simp
next
  case (Cons x xs)
  then show ?case by (cases i) auto
qed

lemma stored_update_same:
  "i < length calls \<Longrightarrow> has_stored c' = has_stored (calls ! i) \<Longrightarrow>
   length (filter has_stored (calls[i := c'])) = length (filter has_stored calls)"
  using filter_update_length [of i calls has_stored c'] by (simp split: if_splits)

lemma stored_update_new:
  "i < length calls \<Longrightarrow> has_stored c' \<Longrightarrow> \<not> has_stored (calls ! i) \<Longrightarrow>
   length (filter has_stored (calls[i := c'])) = Suc (length (filter has_stored calls))"
  using filter_update_length [of i calls has_stored c'] by simp

lemma inc_step_inv:
  assumes inv: "calls_inv ident c0 calls st" and i: "i < length calls"
    and step: "inc_step ident (calls ! i) st = Some (c', st')"
  shows "calls_inv ident c0 (calls[i := c']) st'"
proof -
  obtain locked sh where st: "st = (locked, sh)" by (cases st)
  from inv st have lock: "locked \<longleftrightarrow> (\<exists>j < length calls. holds_lock (calls ! j))"
    and uniq: "\<And>j k. j < length calls \<Longrightarrow> k < length calls \<Longrightarrow>
        holds_lock (calls ! j) \<Longrightarrow> holds_lock (calls ! k) \<Longrightarrow> j = k"
    and read: "\<And>j v. j < length calls \<Longrightarrow> calls ! j = AtStore v \<Longrightarrow> v = count_of sh ident"
    and cnt: "count_of sh ident = c0 + of_nat (length (filter has_stored calls))"
    by (auto simp: calls_inv_def)
  show ?thesis
  proof (cases "calls ! i")
    case AtLock
    with step st have free: "\<not> locked" and c': "c' = AtLoad" and st': "st' = (True, sh)"
      by (auto split: if_splits)
    from free lock have none: "\<And>j. j < length calls \<Longrightarrow> \<not> holds_lock (calls ! j)" by blast
    have "length (filter has_stored (calls[i := c'])) = length (filter has_stored calls)"
      using i AtLock c' by (simp add: stored_update_same)
    with cnt i none read show ?thesis
      unfolding calls_inv_def st' c'
      by (auto simp: nth_list_update split: if_splits)
  next
    case AtLoad
    with step st have c': "c' = AtStore (count_of sh ident)" and st': "st' = (locked, sh)"
      by auto
    have "length (filter has_stored (calls[i := c'])) = length (filter has_stored calls)"
      using i AtLoad c' by (simp add: stored_update_same)
    moreover have "\<And>j. j < length calls \<Longrightarrow> holds_lock ((calls[i := c']) ! j) = holds_lock (calls ! j)"
      using i AtLoad c' by (auto simp: nth_list_update)
    ultimately show ?thesis
      using cnt i lock uniq read AtLoad unfolding calls_inv_def st' c'
      by (auto simp: nth_list_update split: if_splits)
  next
    case (AtStore v)
    with step st have c': "c' = AtResult"
      and st': "st' = (locked, sh\<lparr>counter := (counter sh)(ident \<mapsto> v + 1)\<rparr>)"
      by auto
    from read [OF i AtStore] have v: "v = count_of sh ident" .
    have new: "count_of (sh\<lparr>counter := (counter sh)(ident \<mapsto> v + 1)\<rparr>) ident = count_of sh ident + 1"
      by (simp add: count_of_def v)
    have "length (filter has_stored (calls[i := c'])) = Suc (length (filter has_stored calls))"
      using i AtStore c' by (simp add: stored_update_new)
    moreover have hold: "\<And>j. j < length calls \<Longrightarrow> holds_lock ((calls[i := c']) ! j) = holds_lock (calls ! j)"
      using i AtStore c' by (auto simp: nth_list_update)
    moreover have "\<And>j w. j < length calls \<Longrightarrow> (calls[i := c']) ! j \<noteq> AtStore w"
    proof
      fix j w assume j: "j < length calls" and eq: "(calls[i := c']) ! j = AtStore w"
      with i c' have "j \<noteq> i" by auto
      with eq have "calls ! j = AtStore w" by simp
      with uniq [OF i j] AtStore \<open>j \<noteq> i\<close> show False by simp
    qed
    ultimately show ?thesis
      using cnt i lock uniq AtStore unfolding calls_inv_def st'
      by (auto simp: new)
  next
    case AtResult
    with step st have c': "c' = AtUnlock (count_of sh ident)" and st': "st' = (locked, sh)"
      by auto
    have "length (filter has_stored (calls[i := c'])) = length (filter has_stored calls)"
      using i AtResult c' by (simp add: stored_update_same)
    moreover have "\<And>j. j < length calls \<Longrightarrow> holds_lock ((calls[i := c']) ! j) = holds_lock (calls ! j)"
      using i AtResult c' by (auto simp: nth_list_update)
    ultimately show ?thesis
      using cnt i lock uniq read AtResult unfolding calls_inv_def st' c'
      by (auto simp: nth_list_update split: if_splits)
  next
    case (AtUnlock r)
    with step st have c': "c' = Returned r" and st': "st' = (False, sh)"
      by auto
    have "length (filter has_stored (calls[i := c'])) = length (filter has_stored calls)"
      using i AtUnlock c' by (simp add: stored_update_same)
    moreover have "\<And>j. j < length calls \<Longrightarrow> \<not> holds_lock ((calls[i := c']) ! j)"
    proof
      fix j assume j: "j < length calls" and h: "holds_lock ((calls[i := c']) ! j)"
      with i c' have "j \<noteq> i" by auto
      with h have "holds_lock (calls ! j)" by simp
      with uniq [OF i j] AtUnlock \<open>j \<noteq> i\<close> show False by simp
    qed
    ultimately show ?thesis
      using cnt i read unfolding calls_inv_def st' c'
      by (auto simp: nth_list_update split: if_splits)
  next
    case (Returned r)
    with step st show ?thesis by simp
  qed
qed


lemma run_calls_length: "length (fst (run_calls ident sched calls st)) = length calls"
proof (induction sched arbitrary: calls st)
  case Nil
  then show ?case by simp
next
  case (Cons i sched)
  then show ?case by (auto split: option.splits)
qed

lemma run_calls_inv:
  "calls_inv ident c0 calls st \<Longrightarrow>
   calls_inv ident c0 (fst (run_calls ident sched calls st)) (snd (run_calls ident sched calls st))"
proof (induction sched arbitrary: calls st)
  case Nil
  then show ?case by simp
next
  case (Cons i sched)
  show ?case
  proof (cases "i < length calls")
    case False
    with Cons show ?thesis by simp
  next
    case True
    show ?thesis
    proof (cases "inc_step ident (calls ! i) st")
      case None
      with True Cons show ?thesis by simp
    next
      case (Some r)
      obtain c' st' where r: "r = (c', st')" by (cases r)
      from Cons.prems True Some r have "calls_inv ident c0 (calls[i := c']) st'"
        by (auto intro: inc_step_inv)
      then have "calls_inv ident c0 (fst (run_calls ident sched (calls[i := c']) st'))
          (snd (run_calls ident sched (calls[i := c']) st'))"
        by (rule Cons.IH)
      with True Some r show ?thesis by simp
    qed
  qed
qed

lemma calls_inv_init: "calls_inv ident (count_of sh ident) (replicate n AtLock) (False, sh)"
  by (simp add: calls_inv_def)

lemma has_returned_stored: "has_returned c \<Longrightarrow> has_stored c"
  by (cases c) simp_all

lemma has_returned_free: "has_returned c \<Longrightarrow> \<not> holds_lock c"
  by (cases c) simp_all

lemma run_calls_count:
  assumes "\<forall>c \<in> set (fst (run_calls ident sched (replicate n AtLock) (False, sh))). has_returned c"
  shows "count_of (snd (snd (run_calls ident sched (replicate n AtLock) (False, sh)))) ident
      = count_of sh ident + of_nat n"
    and "\<not> fst (snd (run_calls ident sched (replicate n AtLock) (False, sh)))"
proof -
  let ?calls = "fst (run_calls ident sched (replicate n AtLock) (False, sh))"
  let ?st = "snd (run_calls ident sched (replicate n AtLock) (False, sh))"
  have inv: "calls_inv ident (count_of sh ident) ?calls ?st"
    by (intro run_calls_inv calls_inv_init)
  have len: "length ?calls = n"
    by (simp add: run_calls_length)
  from assms have "filter has_stored ?calls = ?calls"
    by (auto simp: filter_id_conv has_returned_stored)
  then have "length (filter has_stored ?calls) = n"
    using len by simp
  with inv show "count_of (snd ?st) ident = count_of sh ident + of_nat n"
    by (simp add: calls_inv_def)
  from assms have "\<forall>i < length ?calls. \<not> holds_lock (?calls ! i)"
    by (auto simp: has_returned_free)
  with inv show "\<not> fst ?st"
    by (simp add: calls_inv_def)
qed

lemma calls_progress:
  assumes inv: "calls_inv ident c0 calls st" and i: "i < length calls"
    and left: "\<not> has_returned (calls ! i)"
  shows "\<exists>j < length calls. inc_step ident (calls ! j) st \<noteq> None"
proof (cases "fst st")
  case True
  with inv obtain j where j: "j < length calls" "holds_lock (calls ! j)"
    by (auto simp: calls_inv_def)
  then have "inc_step ident (calls ! j) st \<noteq> None"
    by (cases "calls ! j"; cases st) simp_all
  with j show ?thesis by blast
next
  case False
  with inv i have "\<not> holds_lock (calls ! i)" by (auto simp: calls_inv_def)
  with left have "calls ! i = AtLock" by (cases "calls ! i") simp_all
  with False have "inc_step ident (calls ! i) st \<noteq> None" by (cases st) simp
  with i show ?thesis by blast
qed

lemma run_calls_progress:
  assumes "i < n"
    and "\<not> has_returned (fst (run_calls ident sched (replicate n AtLock) (False, sh)) ! i)"
  shows "\<exists>j < n. inc_step ident (fst (run_calls ident sched (replicate n AtLock) (False, sh)) ! j)
      (snd (run_calls ident sched (replicate n AtLock) (False, sh))) \<noteq> None"
proof -
  let ?calls = "fst (run_calls ident sched (replicate n AtLock) (False, sh))"
  let ?st = "snd (run_calls ident sched (replicate n AtLock) (False, sh))"
  have inv: "calls_inv ident (count_of sh ident) ?calls ?st"
    by (intro run_calls_inv calls_inv_init)
  have len: "length ?calls = n"
    by (simp add: run_calls_length)
  from calls_progress [OF inv, of i] assms len show ?thesis by simp
qed

lemma run_calls_append:
  "run_calls ident (s1 @ s2) calls st =
   run_calls ident s2 (fst (run_calls ident s1 calls st)) (snd (run_calls ident s1 calls st))"
proof (induction s1 arbitrary: calls st)
  case Nil
  then show ?case by simp
next
  case (Cons i s1)
  then show ?case by (auto split: option.splits)
qed

lemma one_call:
  assumes "i < length calls" and "calls ! i = AtLock"
  shows "run_calls ident (replicate 5 i) calls (False, sh) =
    (calls[i := Returned (fst (Increment ident sh))], (False, snd (Increment ident sh)))"
proof -
  have "replicate 5 i = [i, i, i, i, i]" by (simp add: numeral_eq_Suc)
  with assms show ?thesis
    by (simp add: Increment_def count_of_def Let_def)
qed

lemma one_by_one_Suc: "one_by_one (Suc k) = one_by_one k @ replicate 5 k"
  by (simp add: one_by_one_def)

lemma one_by_one_run:
  "k \<le> n \<Longrightarrow>
   \<exists>calls sh'. run_calls ident (one_by_one k) (replicate n AtLock) (False, sh) = (calls, (False, sh'))
     \<and> length calls = n \<and> (\<forall>j < k. has_returned (calls ! j))
     \<and> (\<forall>j < n. k \<le> j \<longrightarrow> calls ! j = AtLock)"
proof (induction k)
  case 0
  then show ?case by (simp add: one_by_one_def)
next
  case (Suc k)
  then obtain calls sh' where
    run: "run_calls ident (one_by_one k) (replicate n AtLock) (False, sh) = (calls, (False, sh'))"
    and len: "length calls = n" and fin: "\<forall>j < k. has_returned (calls ! j)"
    and rest: "\<forall>j < n. k \<le> j \<longrightarrow> calls ! j = AtLock"
    by auto
  from Suc.prems len rest have k: "k < length calls" "calls ! k = AtLock" by auto
  have "run_calls ident (one_by_one (Suc k)) (replicate n AtLock) (False, sh) =
      (calls[k := Returned (fst (Increment ident sh'))], (False, snd (Increment ident sh')))"
    by (simp add: one_by_one_Suc run_calls_append run one_call [OF k])
  moreover have "\<forall>j < Suc k. has_returned ((calls[k := Returned (fst (Increment ident sh'))]) ! j)"
    using fin k by (auto simp: nth_list_update less_Suc_eq)
  moreover have "\<forall>j < n. Suc k \<le> j \<longrightarrow> (calls[k := Returned (fst (Increment ident sh'))]) ! j = AtLock"
    using rest by (auto simp: nth_list_update)
  ultimately show ?case using len by simp
qed

lemma one_by_one_returns:
  "\<forall>c \<in> set (fst (run_calls ident (one_by_one n) (replicate n AtLock) (False, sh))). has_returned c"
proof -
  from one_by_one_run [of n n ident sh] obtain calls sh' where
    "run_calls ident (one_by_one n) (replicate n AtLock) (False, sh) = (calls, (False, sh'))"
    "length calls = n" "\<forall>j < n. has_returned (calls ! j)"
    by auto
  then show ?thesis by (auto simp: in_set_conv_nth)
qed


text \<open>
  Claim C8, as amended. Let \<open>n < 2\<^sup>3\<^sup>1\<close> calls of \<^verbatim>\<open>Increment\<close> on one key run interleaved in
  any order, step by step, on a store whose count for the key is 0 (as after a reset).
  When all of them have returned, the count of the key is \<open>n\<close> and the mutex is free: no
  increment is lost. The calls can all return: they do when they run one after the
  other.
\<close>

theorem no_increment_lost:
  assumes fresh: "count_of sh ident = 0" and n: "n < 2 ^ 31"
    and ret: "\<forall>c \<in> set (fst (run_calls ident sched (replicate n AtLock) (False, sh))).
      has_returned c"
  shows "sint (count_of (snd (snd (run_calls ident sched (replicate n AtLock) (False, sh)))) ident)
      = int n \<and>
    \<not> fst (snd (run_calls ident sched (replicate n AtLock) (False, sh))) \<and>
    (\<forall>c \<in> set (fst (run_calls ident (one_by_one n) (replicate n AtLock) (False, sh))).
      has_returned c)"
proof -
  from run_calls_count(1) [OF ret] fresh
  have "count_of (snd (snd (run_calls ident sched (replicate n AtLock) (False, sh)))) ident
      = of_nat n"
    by simp
  with n have "sint (count_of (snd (snd (run_calls ident sched (replicate n AtLock) (False, sh))))
      ident) = int n"
    by (simp add: sint_of_nat_small)
  with run_calls_count(2) [OF ret] one_by_one_returns [of ident n sh] show ?thesis
    by blast
qed

theorem no_increment_lost_witness:
  "count_of NewStatHolder ''127.0.0.1'' = 0 \<and> (3::nat) < 2 ^ 31 \<and>
   fst (run_calls ''127.0.0.1'' [0, 1, 0, 2, 0, 0, 0, 1, 1, 2, 1, 1, 1, 2, 2, 2, 2, 2]
       (replicate 3 AtLock) (False, NewStatHolder)) = [Returned 1, Returned 2, Returned 3] \<and>
   sint (count_of (snd (snd (run_calls ''127.0.0.1''
       [0, 1, 0, 2, 0, 0, 0, 1, 1, 2, 1, 1, 1, 2, 2, 2, 2, 2]
       (replicate 3 AtLock) (False, NewStatHolder)))) ''127.0.0.1'') = 3"
proof -
  let ?sched = "[0, 1, 0, 2, 0, 0, 0, 1, 1, 2, 1, 1, 1, 2, 2, 2, 2, 2] :: nat list"
  have f: "count_of NewStatHolder ''127.0.0.1'' = 0"
    by (simp add: count_of_def NewStatHolder_def)
  have n: "(3::nat) < 2 ^ 31" by simp
  have e: "fst (run_calls ''127.0.0.1'' ?sched (replicate 3 AtLock) (False, NewStatHolder))
      = [Returned 1, Returned 2, Returned 3]"
    by (simp add: numeral_eq_Suc count_of_def NewStatHolder_def)
  then have r: "\<forall>c \<in> set (fst (run_calls ''127.0.0.1'' ?sched (replicate 3 AtLock)
      (False, NewStatHolder))). has_returned c"
    by simp
  from no_increment_lost [OF f n r] f n e show ?thesis by simp
qed

text \<open>
  Claim C8 as stated fails for \<open>n = 2\<^sup>3\<^sup>1\<close> calls: when they have run, one after the
  other, the \<^verbatim>\<open>int32\<close> count of the key is \<open>- 2\<^sup>3\<^sup>1\<close>, not \<open>n\<close>.
\<close>

theorem no_increment_lost_counterexample:
  "list_all has_returned (fst (run_calls ''127.0.0.1'' (one_by_one 2147483648)
       (replicate 2147483648 AtLock) (False, NewStatHolder))) \<and>
   sint (count_of (snd (snd (run_calls ''127.0.0.1'' (one_by_one 2147483648)
       (replicate 2147483648 AtLock) (False, NewStatHolder)))) ''127.0.0.1'') \<noteq> 2147483648"
proof -
  let ?run = "run_calls ''127.0.0.1'' (one_by_one 2147483648) (replicate 2147483648 AtLock)
      (False, NewStatHolder)"
  have r: "\<forall>c \<in> set (fst ?run). has_returned c"
    by (rule one_by_one_returns)
  have "count_of (snd (snd ?run)) ''127.0.0.1''
      = count_of NewStatHolder ''127.0.0.1'' + of_nat 2147483648"
    by (rule run_calls_count(1) [OF r])
  then have "sint (count_of (snd (snd ?run)) ''127.0.0.1'') = - 2147483648"
    by (simp add: count_of_def NewStatHolder_def)
  with r show ?thesis by (simp add: list_all_iff)
qed

end
